theory Spec2Isabelle
  imports Complex_Main
begin

section \<open>Borehole cone mesh generation (cones.ipynb)\<close>

text \<open>
  The notebook defines two dataclasses, \<open>Point\<close> and \<open>Cone\<close>. Validation happens in
  \<open>__post_init__\<close>; the mesh is derived by the properties \<open>points_polar\<close>,
  \<open>points_cartesian\<close>, \<open>indices\<close> and \<open>faces\<close>.

  Conventions of the embedding:
  \<^item> Python \<open>int\<close> is \<open>int\<close>. A Python \<open>float\<close> is a finite value, an infinity or NaN.
    What a floating-point operation returns on finite operands is not fixed here: it is
    read from a parameter \<open>fa\<close>, so that every theorem stated for all \<open>fa\<close> holds for
    the rounding of the machine as well as for exact arithmetic. What an operation does
    with infinities and NaN, and when it raises, is written out. The sign of a zero is
    not represented; no branch of the code depends on it.
  \<^item> constructor arguments are dynamically typed values (\<open>pyval\<close>), because the code
    inspects them with \<open>isinstance\<close>;
  \<^item> every \<open>raise\<close> and every failing primitive (\<open>math.sqrt\<close> of a negative number,
    an overflowing power or conversion, division by zero, indexing an empty list,
    comparing a non-number with a number) is a value \<open>Inl e\<close> of the result type;
  \<^item> \<open>print\<close> appends a line to an explicit output list.
\<close>

subsection \<open>Values and errors\<close>

datatype error =
  ValueError string | TypeError | ZeroDivisionError | IndexError | OverflowError

datatype pyfloat = Finite real | PosInf | NegInf | NaN

datatype pynum = PInt int | PFloat pyfloat

record point =
  pt_x :: pynum
  pt_y :: pynum
  pt_z :: pynum

datatype pyval =
  PyNone | PyBool bool | PyInt int | PyFloat pyfloat | PyStr string | PyPoint point

text \<open>Sequencing of computations that may raise.\<close>

definition and_then :: "error + 'a \<Rightarrow> ('a \<Rightarrow> error + 'b) \<Rightarrow> error + 'b" where
  "and_then m f = (case m of Inl e \<Rightarrow> Inl e | Inr v \<Rightarrow> f v)"

text \<open>A list comprehension whose element expression may raise.\<close>

fun map_result :: "('a \<Rightarrow> error + 'b) \<Rightarrow> 'a list \<Rightarrow> error + 'b list" where
  "map_result f [] = Inr []"
| "map_result f (x # xs) =
     and_then (f x) (\<lambda>y. and_then (map_result f xs) (\<lambda>ys. Inr (y # ys)))"

text \<open>\<open>isinstance(v, int)\<close>: \<open>bool\<close> is a subclass of \<open>int\<close>.\<close>

fun isinstance_int :: "pyval \<Rightarrow> bool" where
  "isinstance_int (PyInt n) = True"
| "isinstance_int (PyBool b) = True"
| "isinstance_int v = False"

fun isinstance_float :: "pyval \<Rightarrow> bool" where
  "isinstance_float (PyFloat r) = True"
| "isinstance_float v = False"


text \<open>The integer value of an \<open>int\<close> instance (\<open>True\<close> is 1, \<open>False\<close> is 0).\<close>

fun int_val :: "pyval \<Rightarrow> int" where
  "int_val (PyInt n) = n"
| "int_val (PyBool b) = (if b then 1 else 0)"
| "int_val v = 0"

text \<open>
  A number as arithmetic sees it: a boolean counts by its integer value. Only applied
  to values that are numbers.
\<close>

fun num_val :: "pyval \<Rightarrow> pynum" where
  "num_val (PyFloat r) = PFloat r"
| "num_val (PyInt n) = PInt n"
| "num_val (PyBool b) = PInt (if b then 1 else 0)"
| "num_val v = PInt 0"

definition is_number :: "pyval \<Rightarrow> bool" where
  "is_number v = (isinstance_float v \<or> isinstance_int v)"

text \<open>
  Ordering comparisons of a number with an integer constant. They are exact, also
  between an \<open>int\<close> and a \<open>float\<close>, and every comparison with NaN is false.
\<close>

fun num_gt :: "pynum \<Rightarrow> int \<Rightarrow> bool" where
  "num_gt (PInt n) k = (n > k)"
| "num_gt (PFloat (Finite r)) k = (r > of_int k)"
| "num_gt (PFloat PosInf) k = True"
| "num_gt (PFloat NegInf) k = False"
| "num_gt (PFloat NaN) k = False"

fun num_le :: "pynum \<Rightarrow> int \<Rightarrow> bool" where
  "num_le (PInt n) k = (n \<le> k)"
| "num_le (PFloat (Finite r)) k = (r \<le> of_int k)"
| "num_le (PFloat PosInf) k = False"
| "num_le (PFloat NegInf) k = True"
| "num_le (PFloat NaN) k = False"

fun num_ge :: "pynum \<Rightarrow> int \<Rightarrow> bool" where
  "num_ge (PInt n) k = (n \<ge> k)"
| "num_ge (PFloat (Finite r)) k = (r \<ge> of_int k)"
| "num_ge (PFloat PosInf) k = True"
| "num_ge (PFloat NegInf) k = False"
| "num_ge (PFloat NaN) k = False"

text \<open>
  The same comparisons on dynamically typed values: a \<open>TypeError\<close> on \<open>None\<close>, strings
  and \<open>Point\<close> objects.
\<close>

definition py_gt :: "pyval \<Rightarrow> int \<Rightarrow> error + bool" where
  "py_gt v k = (if is_number v then Inr (num_gt (num_val v) k) else Inl TypeError)"

definition py_le :: "pyval \<Rightarrow> int \<Rightarrow> error + bool" where
  "py_le v k = (if is_number v then Inr (num_le (num_val v) k) else Inl TypeError)"

definition py_ge :: "pyval \<Rightarrow> int \<Rightarrow> error + bool" where
  "py_ge v k = (if is_number v then Inr (num_ge (num_val v) k) else Inl TypeError)"

subsection \<open>Floating-point arithmetic\<close>

text \<open>
  The results of the operations on finite operands. \<open>fl_add\<close>, \<open>fl_sub\<close>, \<open>fl_mul\<close> and
  \<open>fl_div\<close> may overflow to an infinity; \<open>fl_pow2\<close> (the power \<open>x ** 2\<close>) and the
  conversions \<open>fl_int\<close> (of an \<open>int\<close>) and \<open>fl_int_div\<close> (the quotient of two \<open>int\<close>s)
  have no result where Python raises \<open>OverflowError\<close>. \<open>fl_pi\<close> is \<open>math.pi\<close>.
\<close>

record float_arith =
  fl_int :: "int \<Rightarrow> real option"
  fl_int_div :: "int \<Rightarrow> int \<Rightarrow> real option"
  fl_add :: "real \<Rightarrow> real \<Rightarrow> pyfloat"
  fl_sub :: "real \<Rightarrow> real \<Rightarrow> pyfloat"
  fl_mul :: "real \<Rightarrow> real \<Rightarrow> pyfloat"
  fl_div :: "real \<Rightarrow> real \<Rightarrow> pyfloat"
  fl_pow2 :: "real \<Rightarrow> real option"
  fl_sqrt :: "real \<Rightarrow> real"
  fl_cos :: "real \<Rightarrow> real"
  fl_sin :: "real \<Rightarrow> real"
  fl_radians :: "real \<Rightarrow> real"
  fl_pi :: real

text \<open>Arithmetic without rounding and without overflow.\<close>

definition exact_arith :: float_arith where
  "exact_arith =
     \<lparr>fl_int = (\<lambda>n. Some (of_int n)),
      fl_int_div = (\<lambda>a b. Some (of_int a / of_int b)),
      fl_add = (\<lambda>a b. Finite (a + b)),
      fl_sub = (\<lambda>a b. Finite (a - b)),
      fl_mul = (\<lambda>a b. Finite (a * b)),
      fl_div = (\<lambda>a b. Finite (a / b)),
      fl_pow2 = (\<lambda>a. Some (a\<^sup>2)),
      fl_sqrt = sqrt,
      fl_cos = cos,
      fl_sin = sin,
      fl_radians = (\<lambda>d. d * pi / 180),
      fl_pi = pi\<rparr>"

text \<open>
  Conversion of a number to \<open>float\<close>, as mixed arithmetic and the \<open>math\<close> functions do
  it. An \<open>int\<close> of magnitude up to \<open>2\<^sup>5\<^sup>3\<close> converts exactly; a larger one is rounded, or
  raises when it is out of range.
\<close>

definition to_float :: "float_arith \<Rightarrow> pynum \<Rightarrow> error + pyfloat" where
  "to_float fa v =
     (case v of
        PFloat f \<Rightarrow> Inr f
      | PInt n \<Rightarrow>
          if \<bar>n\<bar> \<le> 9007199254740992 then Inr (Finite (of_int n))
          else (case fl_int fa n of
                  Some r \<Rightarrow> Inr (Finite r)
                | None \<Rightarrow> Inl OverflowError))"

text \<open>The four operations on floats, with their IEEE results on infinities and NaN.\<close>

fun float_mul :: "float_arith \<Rightarrow> pyfloat \<Rightarrow> pyfloat \<Rightarrow> pyfloat" where
  "float_mul fa NaN y = NaN"
| "float_mul fa x NaN = NaN"
| "float_mul fa (Finite a) (Finite b) = fl_mul fa a b"
| "float_mul fa (Finite a) PosInf = (if a = 0 then NaN else if 0 < a then PosInf else NegInf)"
| "float_mul fa (Finite a) NegInf = (if a = 0 then NaN else if 0 < a then NegInf else PosInf)"
| "float_mul fa PosInf (Finite b) = (if b = 0 then NaN else if 0 < b then PosInf else NegInf)"
| "float_mul fa NegInf (Finite b) = (if b = 0 then NaN else if 0 < b then NegInf else PosInf)"
| "float_mul fa PosInf PosInf = PosInf"
| "float_mul fa PosInf NegInf = NegInf"
| "float_mul fa NegInf PosInf = NegInf"
| "float_mul fa NegInf NegInf = PosInf"

fun float_add :: "float_arith \<Rightarrow> pyfloat \<Rightarrow> pyfloat \<Rightarrow> pyfloat" where
  "float_add fa NaN y = NaN"
| "float_add fa x NaN = NaN"
| "float_add fa (Finite a) (Finite b) = fl_add fa a b"
| "float_add fa (Finite a) PosInf = PosInf"
| "float_add fa (Finite a) NegInf = NegInf"
| "float_add fa PosInf (Finite b) = PosInf"
| "float_add fa NegInf (Finite b) = NegInf"
| "float_add fa PosInf PosInf = PosInf"
| "float_add fa PosInf NegInf = NaN"
| "float_add fa NegInf PosInf = NaN"
| "float_add fa NegInf NegInf = NegInf"

fun float_sub :: "float_arith \<Rightarrow> pyfloat \<Rightarrow> pyfloat \<Rightarrow> pyfloat" where
  "float_sub fa NaN y = NaN"
| "float_sub fa x NaN = NaN"
| "float_sub fa (Finite a) (Finite b) = fl_sub fa a b"
| "float_sub fa (Finite a) PosInf = NegInf"
| "float_sub fa (Finite a) NegInf = PosInf"
| "float_sub fa PosInf (Finite b) = PosInf"
| "float_sub fa NegInf (Finite b) = NegInf"
| "float_sub fa PosInf PosInf = NaN"
| "float_sub fa PosInf NegInf = PosInf"
| "float_sub fa NegInf PosInf = NegInf"
| "float_sub fa NegInf NegInf = NaN"

text \<open>The quotient by a divisor that is not zero.\<close>

fun ieee_div :: "float_arith \<Rightarrow> pyfloat \<Rightarrow> pyfloat \<Rightarrow> pyfloat" where
  "ieee_div fa NaN y = NaN"
| "ieee_div fa x NaN = NaN"
| "ieee_div fa (Finite a) (Finite b) = fl_div fa a b"
| "ieee_div fa (Finite a) PosInf = Finite 0"
| "ieee_div fa (Finite a) NegInf = Finite 0"
| "ieee_div fa PosInf (Finite b) = (if 0 < b then PosInf else NegInf)"
| "ieee_div fa NegInf (Finite b) = (if 0 < b then NegInf else PosInf)"
| "ieee_div fa PosInf PosInf = NaN"
| "ieee_div fa PosInf NegInf = NaN"
| "ieee_div fa NegInf PosInf = NaN"
| "ieee_div fa NegInf NegInf = NaN"

text \<open>Float division raises on a zero divisor, whatever the dividend.\<close>

definition float_div :: "float_arith \<Rightarrow> pyfloat \<Rightarrow> pyfloat \<Rightarrow> error + pyfloat" where
  "float_div fa x y = (if y = Finite 0 then Inl ZeroDivisionError else Inr (ieee_div fa x y))"

text \<open>
  The binary operators \<open>*\<close>, \<open>+\<close>, \<open>-\<close> and \<open>/\<close> on numbers. Two \<open>int\<close>s are multiplied,
  added and subtracted exactly; otherwise both operands are converted to \<open>float\<close>.
\<close>

fun py_mul :: "float_arith \<Rightarrow> pynum \<Rightarrow> pynum \<Rightarrow> error + pynum" where
  "py_mul fa (PInt a) (PInt b) = Inr (PInt (a * b))"
| "py_mul fa x y =
     and_then (to_float fa x) (\<lambda>a. and_then (to_float fa y) (\<lambda>b.
       Inr (PFloat (float_mul fa a b))))"

fun py_add :: "float_arith \<Rightarrow> pynum \<Rightarrow> pynum \<Rightarrow> error + pynum" where
  "py_add fa (PInt a) (PInt b) = Inr (PInt (a + b))"
| "py_add fa x y =
     and_then (to_float fa x) (\<lambda>a. and_then (to_float fa y) (\<lambda>b.
       Inr (PFloat (float_add fa a b))))"

fun py_sub :: "float_arith \<Rightarrow> pynum \<Rightarrow> pynum \<Rightarrow> error + pynum" where
  "py_sub fa (PInt a) (PInt b) = Inr (PInt (a - b))"
| "py_sub fa x y =
     and_then (to_float fa x) (\<lambda>a. and_then (to_float fa y) (\<lambda>b.
       Inr (PFloat (float_sub fa a b))))"

fun py_truediv :: "float_arith \<Rightarrow> pynum \<Rightarrow> pynum \<Rightarrow> error + pynum" where
  "py_truediv fa (PInt a) (PInt b) =
     (if b = 0 then Inl ZeroDivisionError
      else (case fl_int_div fa a b of
              Some r \<Rightarrow> Inr (PFloat (Finite r))
            | None \<Rightarrow> Inl OverflowError))"
| "py_truediv fa x y =
     and_then (to_float fa x) (\<lambda>a. and_then (to_float fa y) (\<lambda>b.
       and_then (float_div fa a b) (\<lambda>q. Inr (PFloat q))))"

text \<open>
  \<open>x ** 2\<close>: exact on an \<open>int\<close>; on a finite float it raises \<open>OverflowError\<close> when the
  result is out of range.
\<close>

fun py_pow2 :: "float_arith \<Rightarrow> pynum \<Rightarrow> error + pynum" where
  "py_pow2 fa (PInt n) = Inr (PInt (n * n))"
| "py_pow2 fa (PFloat (Finite a)) =
     (case fl_pow2 fa a of
        Some r \<Rightarrow> Inr (PFloat (Finite r))
      | None \<Rightarrow> Inl OverflowError)"
| "py_pow2 fa (PFloat PosInf) = Inr (PFloat PosInf)"
| "py_pow2 fa (PFloat NegInf) = Inr (PFloat PosInf)"
| "py_pow2 fa (PFloat NaN) = Inr (PFloat NaN)"

text \<open>Unary minus.\<close>

fun py_neg :: "pynum \<Rightarrow> pynum" where
  "py_neg (PInt n) = PInt (- n)"
| "py_neg (PFloat (Finite a)) = PFloat (Finite (- a))"
| "py_neg (PFloat PosInf) = PFloat NegInf"
| "py_neg (PFloat NegInf) = PFloat PosInf"
| "py_neg (PFloat NaN) = PFloat NaN"

text \<open>
  \<open>math.sqrt\<close>, \<open>math.cos\<close> and \<open>math.sin\<close> convert their argument to \<open>float\<close>, return
  NaN on NaN, and raise \<open>ValueError\<close> where the result is not a number: the square root
  of a negative number, the cosine and sine of an infinity.
\<close>

fun sqrt_float :: "float_arith \<Rightarrow> pyfloat \<Rightarrow> error + pyfloat" where
  "sqrt_float fa (Finite a) =
     (if a < 0 then Inl (ValueError ''math domain error'') else Inr (Finite (fl_sqrt fa a)))"
| "sqrt_float fa PosInf = Inr PosInf"
| "sqrt_float fa NegInf = Inl (ValueError ''math domain error'')"
| "sqrt_float fa NaN = Inr NaN"

fun cos_float :: "float_arith \<Rightarrow> pyfloat \<Rightarrow> error + pyfloat" where
  "cos_float fa (Finite a) = Inr (Finite (fl_cos fa a))"
| "cos_float fa PosInf = Inl (ValueError ''math domain error'')"
| "cos_float fa NegInf = Inl (ValueError ''math domain error'')"
| "cos_float fa NaN = Inr NaN"

fun sin_float :: "float_arith \<Rightarrow> pyfloat \<Rightarrow> error + pyfloat" where
  "sin_float fa (Finite a) = Inr (Finite (fl_sin fa a))"
| "sin_float fa PosInf = Inl (ValueError ''math domain error'')"
| "sin_float fa NegInf = Inl (ValueError ''math domain error'')"
| "sin_float fa NaN = Inr NaN"

definition math_sqrt :: "float_arith \<Rightarrow> pynum \<Rightarrow> error + pynum" where
  "math_sqrt fa v =
     and_then (to_float fa v) (\<lambda>x. and_then (sqrt_float fa x) (\<lambda>r. Inr (PFloat r)))"

definition math_cos :: "float_arith \<Rightarrow> pynum \<Rightarrow> error + pynum" where
  "math_cos fa v =
     and_then (to_float fa v) (\<lambda>x. and_then (cos_float fa x) (\<lambda>r. Inr (PFloat r)))"

definition math_sin :: "float_arith \<Rightarrow> pynum \<Rightarrow> error + pynum" where
  "math_sin fa v =
     and_then (to_float fa v) (\<lambda>x. and_then (sin_float fa x) (\<lambda>r. Inr (PFloat r)))"

text \<open>
  \<open>math.radians\<close> multiplies by a constant and checks nothing: NaN and the infinities
  pass through.
\<close>

fun radians_float :: "float_arith \<Rightarrow> pyfloat \<Rightarrow> pyfloat" where
  "radians_float fa (Finite a) = Finite (fl_radians fa a)"
| "radians_float fa PosInf = PosInf"
| "radians_float fa NegInf = NegInf"
| "radians_float fa NaN = NaN"

definition math_radians :: "float_arith \<Rightarrow> pynum \<Rightarrow> error + pyfloat" where
  "math_radians fa v = and_then (to_float fa v) (\<lambda>x. Inr (radians_float fa x))"

subsection \<open>Point\<close>

text \<open>The loop of \<open>Point.__post_init__\<close> over \<open>(self.x, self.y, self.z)\<close>.\<close>

fun check_numbers :: "pyval list \<Rightarrow> error + unit" where
  "check_numbers [] = Inr ()"
| "check_numbers (i # rest) =
     (if \<not> (isinstance_float i \<or> isinstance_int i)
      then Inl (ValueError ''x, y, z must be numbers (int, float)'')
      else check_numbers rest)"

text \<open>
  \<open>Point(x, y, z)\<close>: the dataclass stores the arguments and runs \<open>__post_init__\<close>;
  the result is the error raised or the object.
\<close>

definition Point_post_init :: "pyval \<Rightarrow> pyval \<Rightarrow> pyval \<Rightarrow> error + point" where
  "Point_post_init x y z =
     (case check_numbers [x, y, z] of
        Inl e \<Rightarrow> Inl e
      | Inr u \<Rightarrow> Inr \<lparr>pt_x = num_val x, pt_y = num_val y, pt_z = num_val z\<rparr>)"

subsection \<open>Cone\<close>

record cone =
  point :: point
  length_c :: pynum
  sides :: int
  rings :: int
  dip :: pyfloat

definition SIDES_MIN :: int where "SIDES_MIN = 3"
definition RINGS_MIN :: int where "RINGS_MIN = 1"
definition DIP_MIN :: int where "DIP_MIN = 0"
definition DIP_MAX :: int where "DIP_MAX = 90"

text \<open>The loop of \<open>Cone.__post_init__\<close> over \<open>(self.sides, self.rings)\<close>.\<close>

fun check_ints :: "pyval list \<Rightarrow> error + unit" where
  "check_ints [] = Inr ()"
| "check_ints (i # rest) =
     (if \<not> isinstance_int i
      then Inl (ValueError ''sides and rings must be an integers'')
      else check_ints rest)"

text \<open>
  \<open>Cone(point, length, sides, rings, dip)\<close>: the dataclass stores the five arguments and
  runs \<open>__post_init__\<close>. The result is the printed output together with either the error
  raised or the object; sides and rings are kept by their integer value. The clamping
  notices are printed before the dip is checked, so they are part of the output even
  when the dip is rejected afterwards.
\<close>

definition Cone_post_init ::
  "float_arith \<Rightarrow> pyval \<Rightarrow> pyval \<Rightarrow> pyval \<Rightarrow> pyval \<Rightarrow> pyval \<Rightarrow> string list \<times> (error + cone)" where
  "Cone_post_init fa p len sd rg dp =
     (case p of
        PyPoint pt \<Rightarrow>
          (case py_gt len 0 of
             Inl e \<Rightarrow> ([], Inl e)
           | Inr positive \<Rightarrow>
               if \<not> positive then ([], Inl (ValueError ''length must be a positive float''))
               else
                 (case check_ints [sd, rg] of
                    Inl e \<Rightarrow> ([], Inl e)
                  | Inr u \<Rightarrow>
                      let (sides1, out1) =
                            (if int_val sd < SIDES_MIN
                             then (SIDES_MIN, [''Number of sides set to 3''])
                             else (int_val sd, []));
                          (rings1, out2) =
                            (if int_val rg < RINGS_MIN
                             then (RINGS_MIN, out1 @ [''Number of rings set to 1''])
                             else (int_val rg, out1))
                      in
                        (case py_le dp DIP_MIN of
                           Inl e \<Rightarrow> (out2, Inl e)
                         | Inr low \<Rightarrow>
                             if low
                             then (out2, Inl (ValueError
                                    ''dip must be larger than (0 and smaller than 90]''))
                             else
                               (case py_ge dp DIP_MAX of
                                  Inl e \<Rightarrow> (out2, Inl e)
                                | Inr high \<Rightarrow>
                                    if high
                                    then (out2, Inl (ValueError
                                           ''dip must be larger than (0 and smaller than 90]''))
                                    else
                                      (case math_radians fa (num_val dp) of
                                         Inl e \<Rightarrow> (out2, Inl e)
                                       | Inr d \<Rightarrow>
                                           (out2, Inr \<lparr>point = pt, length_c = num_val len,
                                              sides = sides1, rings = rings1, dip = d\<rparr>))))))
      | _ \<Rightarrow> ([], Inl (ValueError ''point must be an instance of Point'')))"

subsection \<open>Polar and Cartesian points\<close>

type_synonym polar = "int \<times> pynum \<times> pynum \<times> pynum"

text \<open>
  The expression \<open>i * self.length * math.cos(self.dip) / self.rings\<close>, evaluated from the
  left: it is the \<open>radius\<close> of ring \<open>i\<close> and occurs a second time inside the height.
\<close>

definition radius :: "float_arith \<Rightarrow> cone \<Rightarrow> int \<Rightarrow> error + pynum" where
  "radius fa c i =
     and_then (py_mul fa (PInt i) (length_c c)) (\<lambda>il.
     and_then (math_cos fa (PFloat (dip c))) (\<lambda>cd.
     and_then (py_mul fa il cd) (\<lambda>ilc.
       py_truediv fa ilc (PInt (rings c)))))"

text \<open>\<open>- math.sqrt(self.length**2 - (i * self.length * math.cos(self.dip) / self.rings)**2)\<close>.\<close>

definition height :: "float_arith \<Rightarrow> cone \<Rightarrow> int \<Rightarrow> error + pynum" where
  "height fa c i =
     and_then (py_pow2 fa (length_c c)) (\<lambda>l2.
     and_then (radius fa c i) (\<lambda>r.
     and_then (py_pow2 fa r) (\<lambda>r2.
     and_then (py_sub fa l2 r2) (\<lambda>d.
     and_then (math_sqrt fa d) (\<lambda>s.
       Inr (py_neg s))))))"

text \<open>\<open>j * 2 * math.pi / self.sides\<close>.\<close>

definition angle :: "float_arith \<Rightarrow> cone \<Rightarrow> int \<Rightarrow> error + pynum" where
  "angle fa c j =
     and_then (py_mul fa (PInt (j * 2)) (PFloat (Finite (fl_pi fa)))) (\<lambda>jp.
       py_truediv fa jp (PInt (sides c)))"

text \<open>
  The inner loop \<open>for j in range(self.sides)\<close> of \<open>points_polar\<close>, for one ring \<open>i\<close>
  with its radius and height; \<open>pts\<close> is the list built so far. The angle is computed
  before the test that skips the duplicates of ring 0.
\<close>

fun polar_sides ::
  "float_arith \<Rightarrow> cone \<Rightarrow> int \<Rightarrow> pynum \<Rightarrow> pynum \<Rightarrow> int list \<Rightarrow> polar list \<Rightarrow> error + polar list" where
  "polar_sides fa c i r h [] pts = Inr pts"
| "polar_sides fa c i r h (j # js) pts =
     and_then (angle fa c j) (\<lambda>a.
       if i = 0 \<and> j > 0
       then polar_sides fa c i r h js pts
       else polar_sides fa c i r h js (pts @ [(i, r, a, h)]))"

text \<open>The outer loop \<open>for i in range(self.rings + 1)\<close>.\<close>

fun polar_rings :: "float_arith \<Rightarrow> cone \<Rightarrow> int list \<Rightarrow> polar list \<Rightarrow> error + polar list" where
  "polar_rings fa c [] pts = Inr pts"
| "polar_rings fa c (i # is) pts =
     and_then (radius fa c i) (\<lambda>r.
     and_then (height fa c i) (\<lambda>h.
     and_then (polar_sides fa c i r h [0 .. sides c - 1] pts) (\<lambda>pts'.
       polar_rings fa c is pts')))"

definition points_polar :: "float_arith \<Rightarrow> cone \<Rightarrow> error + polar list" where
  "points_polar fa c =
     and_then (polar_rings fa c [0 .. rings c] []) (\<lambda>pts.
       Inr (pts @ [(- 1, PInt 0, PInt 0, PInt 0)]))"

text \<open>
  One element of the comprehension of \<open>points_cartesian\<close>:
  \<open>[p[0], x + p[1] * cos(p[2]), y + p[1] * sin(p[2]), z + p[3]]\<close>.
\<close>

definition cartesian :: "float_arith \<Rightarrow> cone \<Rightarrow> polar \<Rightarrow> error + polar" where
  "cartesian fa c p =
     (case p of (p0, p1, p2, p3) \<Rightarrow>
        and_then (math_cos fa p2) (\<lambda>cs.
        and_then (py_mul fa p1 cs) (\<lambda>dx.
        and_then (py_add fa (pt_x (point c)) dx) (\<lambda>x.
        and_then (math_sin fa p2) (\<lambda>sn.
        and_then (py_mul fa p1 sn) (\<lambda>dy.
        and_then (py_add fa (pt_y (point c)) dy) (\<lambda>y.
        and_then (py_add fa (pt_z (point c)) p3) (\<lambda>z.
          Inr (p0, x, y, z)))))))))"

definition points_cartesian :: "float_arith \<Rightarrow> cone \<Rightarrow> error + polar list" where
  "points_cartesian fa c =
     and_then (points_polar fa c) (\<lambda>pts. map_result (cartesian fa c) pts)"

subsection \<open>Indices and faces\<close>

text \<open>\<open>_shift(seq, n)\<close>: \<open>n % len(seq)\<close> raises on the empty sequence.\<close>

definition shift :: "'a list \<Rightarrow> int \<Rightarrow> error + 'a list" where
  "shift seq n =
     (if length seq = 0 then Inl ZeroDivisionError
      else let n' = nat (n mod int (length seq)) in Inr (drop n' seq @ take n' seq))"

text \<open>Python's \<open>enumerate\<close>, counting from \<open>k\<close>.\<close>

fun enumerate_from :: "int \<Rightarrow> 'a list \<Rightarrow> (int \<times> 'a) list" where
  "enumerate_from k [] = []"
| "enumerate_from k (x # xs) = (k, x) # enumerate_from (k + 1) xs"

record idxpt =
  ring :: int
  idx :: int

definition indices :: "float_arith \<Rightarrow> cone \<Rightarrow> error + idxpt list" where
  "indices fa c =
     and_then (points_cartesian fa c) (\<lambda>pts.
       Inr (map (\<lambda>(k, i). \<lparr>ring = fst i, idx = k + 1\<rparr>) (enumerate_from 0 pts)))"

type_synonym face = "int \<times> int \<times> int"

text \<open>\<open>zip\<close> of three lists, as tuples.\<close>

definition zip3 :: "'a list \<Rightarrow> 'b list \<Rightarrow> 'c list \<Rightarrow> ('a \<times> 'b \<times> 'c) list" where
  "zip3 xs ys zs = zip xs (zip ys zs)"

text \<open>
  The loop \<open>for i in range(self.rings)\<close> of \<open>faces\<close>; \<open>fs\<close> is the list built so far.
  \<open>ring_current[0]\<close> raises \<open>IndexError\<close> on an empty ring, \<open>pts_idx[-1]\<close> on an empty
  index list.
\<close>

fun faces_loop :: "cone \<Rightarrow> idxpt list \<Rightarrow> int list \<Rightarrow> face list \<Rightarrow> error + face list" where
  "faces_loop c pts_idx [] fs = Inr fs"
| "faces_loop c pts_idx (i # is) fs =
     (let ring_current = filter (\<lambda>pt. ring pt = i) pts_idx;
          ring_next = filter (\<lambda>pt. ring pt = i + 1) pts_idx
      in
        if i = 0 then
          (case ring_current of
             [] \<Rightarrow> Inl IndexError
           | pt0 # rest \<Rightarrow>
               let idx1 = idx pt0;
                   idx2 = map idx ring_next
               in (case shift idx2 1 of
                     Inl e \<Rightarrow> Inl e
                   | Inr idx3 \<Rightarrow>
                       faces_loop c pts_idx is
                         (fs @ map (\<lambda>(i2, i3). (idx1, i2, i3)) (zip idx2 idx3))))
        else if i > 0 then
          (let idx1 = map idx ring_current in
           case shift idx1 1 of
             Inl e \<Rightarrow> Inl e
           | Inr idx2 \<Rightarrow>
               let idx3 = map idx ring_next in
               (case shift idx3 1 of
                  Inl e \<Rightarrow> Inl e
                | Inr idx4 \<Rightarrow>
                    let fs1 = fs @ map (\<lambda>(i1, i2, i3). (i1, i2, i3)) (zip3 idx1 idx2 idx3);
                        fs2 = fs1 @ map (\<lambda>(i2, i3, i4). (i2, i3, i4)) (zip3 idx2 idx3 idx4)
                    in
                      if i = rings c - 1 then
                        (if pts_idx = [] then Inl IndexError
                         else
                           let idx1 = idx (last pts_idx) in
                           faces_loop c pts_idx is
                             (fs2 @ map (\<lambda>(i3, i4). (idx1, i3, i4)) (zip idx3 idx4)))
                      else faces_loop c pts_idx is fs2))
        else faces_loop c pts_idx is fs)"

definition faces :: "float_arith \<Rightarrow> cone \<Rightarrow> error + face list" where
  "faces fa c =
     and_then (indices fa c) (\<lambda>pts_idx. faces_loop c pts_idx [0 .. rings c - 1] [])"

subsection \<open>Descriptors\<close>

text \<open>
  What the derivations need of a descriptor: the side and ring counts that construction
  clamps to. Every valid descriptor has them.
\<close>

definition clamped :: "cone \<Rightarrow> bool" where
  "clamped c = (3 \<le> sides c \<and> 1 \<le> rings c)"

text \<open>A stored dip strictly between 0 and 90 degrees, in radians.\<close>

fun dip_in_range :: "pyfloat \<Rightarrow> bool" where
  "dip_in_range (Finite d) = (0 < d \<and> d < pi / 2)"
| "dip_in_range f = False"

text \<open>
  A valid descriptor: positive length, at least 3 sides, at least 1 ring, and a dip
  strictly between 0 and 90 degrees.
\<close>

definition valid :: "cone \<Rightarrow> bool" where
  "valid c = (num_gt (length_c c) 0 \<and> 3 \<le> sides c \<and> 1 \<le> rings c \<and> dip_in_range (dip c))"

subsection \<open>The specification's rings and indices\<close>

text \<open>
  The definitions from here on follow the words of the specification, not the code; the
  theorems below compare them with the functions above.

  The ring tags of the points of ring \<open>i\<close>: one point for ring 0, one per side otherwise.
\<close>

definition ring_tags :: "cone \<Rightarrow> int \<Rightarrow> int list" where
  "ring_tags c i = map (\<lambda>j. i) (if i = 0 then [0] else [0 .. sides c - 1])"

text \<open>
  The 1-based indices of ring \<open>i\<close> in generation order: ring 0 is vertex 1, ring
  \<open>i \<ge> 1\<close> is the block of \<open>sides\<close> consecutive indices after the earlier rings.
\<close>

definition ring_idx_spec :: "cone \<Rightarrow> int \<Rightarrow> int list" where
  "ring_idx_spec c i = (if i = 0 then [1] else [2 + (i - 1) * sides c .. 1 + i * sides c])"

text \<open>The comprehension of \<open>indices\<close> on a list of ring tags, counting from \<open>k\<close>.\<close>

definition number_from :: "int \<Rightarrow> int list \<Rightarrow> idxpt list" where
  "number_from k tags = map (\<lambda>(k, t). \<lparr>ring = t, idx = k + 1\<rparr>) (enumerate_from k tags)"

text \<open>The whole index list: the rings in order, then the apex with the highest index.\<close>

definition indexed_spec :: "cone \<Rightarrow> idxpt list" where
  "indexed_spec c =
     concat (map (\<lambda>i. map (\<lambda>m. \<lparr>ring = i, idx = m\<rparr>) (ring_idx_spec c i)) [0 .. rings c])
     @ [\<lparr>ring = - 1, idx = rings c * sides c + 2\<rparr>]"

text \<open>The ordered index list of ring \<open>i\<close> in an index list.\<close>

definition ring_indices :: "idxpt list \<Rightarrow> int \<Rightarrow> int list" where
  "ring_indices pts_idx i = map idx (filter (\<lambda>pt. ring pt = i) pts_idx)"

text \<open>
  The three kinds of triangles, for \<open>k\<close> in \<open>0..n\<close>; \<open>rotate1\<close> is the left rotation
  by one. The body emits the first triangle of every quadrilateral, then the second of
  every quadrilateral, which is the order of the two \<open>extend\<close> calls.
\<close>

definition tip_fan_spec :: "nat \<Rightarrow> int \<Rightarrow> int list \<Rightarrow> face list" where
  "tip_fan_spec n t N1 = map (\<lambda>k. (t, N1 ! k, rotate1 N1 ! k)) [0 ..< n]"

definition body_spec :: "nat \<Rightarrow> int list \<Rightarrow> int list \<Rightarrow> face list" where
  "body_spec n A B =
     map (\<lambda>k. (A ! k, rotate1 A ! k, B ! k)) [0 ..< n]
     @ map (\<lambda>k. (rotate1 A ! k, B ! k, rotate1 B ! k)) [0 ..< n]"

definition apex_fan_spec :: "nat \<Rightarrow> int \<Rightarrow> int list \<Rightarrow> face list" where
  "apex_fan_spec n apex B = map (\<lambda>k. (apex, B ! k, rotate1 B ! k)) [0 ..< n]"

text \<open>The faces of one ring transition, on the closed form of the ring indices.\<close>

definition ring_faces_spec :: "cone \<Rightarrow> int \<Rightarrow> face list" where
  "ring_faces_spec c i =
     (if i = 0 then tip_fan_spec (nat (sides c)) 1 (ring_idx_spec c 1)
      else body_spec (nat (sides c)) (ring_idx_spec c i) (ring_idx_spec c (i + 1))
           @ (if i = rings c - 1
              then apex_fan_spec (nat (sides c)) (rings c * sides c + 2) (ring_idx_spec c (i + 1))
              else []))"

text \<open>A face whose three indices are 1-based references into a list of \<open>n\<close> vertices.\<close>

definition face_in_range :: "int \<Rightarrow> face \<Rightarrow> bool" where
  "face_in_range n f = (case f of (a, b, d) \<Rightarrow> 1 \<le> a \<and> a \<le> n \<and> 1 \<le> b \<and> b \<le> n \<and> 1 \<le> d \<and> d \<le> n)"

text \<open>The whole face list on the closed form of the ring indices.\<close>

definition faces_spec :: "cone \<Rightarrow> face list" where
  "faces_spec c =
     tip_fan_spec (nat (sides c)) 1 (ring_idx_spec c 1)
     @ concat (map (\<lambda>i. body_spec (nat (sides c)) (ring_idx_spec c i) (ring_idx_spec c (i + 1)))
                [1 .. rings c - 1])
     @ (if 2 \<le> rings c
        then apex_fan_spec (nat (sides c)) (rings c * sides c + 2) (ring_idx_spec c (rings c))
        else [])"

subsection \<open>The specification's validation\<close>

text \<open>A result that is a raised \<open>ValueError\<close>, whatever its message.\<close>

fun is_ValueError :: "error + 'a \<Rightarrow> bool" where
  "is_ValueError (Inl (ValueError m)) = True"
| "is_ValueError r = False"



text \<open>The notices printed when sides or rings are clamped.\<close>

definition notices_spec :: "pyval \<Rightarrow> pyval \<Rightarrow> string list" where
  "notices_spec sd rg =
     (if int_val sd < 3 then [''Number of sides set to 3''] else [])
     @ (if int_val rg < 1 then [''Number of rings set to 1''] else [])"

text \<open>The float of a number that converts without rounding.\<close>

fun exact_float :: "pynum \<Rightarrow> pyfloat" where
  "exact_float (PInt n) = Finite (of_int n)"
| "exact_float (PFloat f) = f"

subsection \<open>Example inputs\<close>

text \<open>
  \<open>Cone(Point(0, 0, 0), 100, 4, 2, 60)\<close> and \<open>Cone(Point(0, 0, 0), 100, 3, 1, 60)\<close>
  after construction, and what the derivations return for the first, in exact
  arithmetic.
\<close>

definition origin :: point where
  "origin = \<lparr>pt_x = PInt 0, pt_y = PInt 0, pt_z = PInt 0\<rparr>"

definition example_cone :: cone where
  "example_cone =
     \<lparr>point = origin, length_c = PInt 100, sides = 4, rings = 2, dip = Finite (60 * pi / 180)\<rparr>"

definition one_ring_cone :: cone where
  "one_ring_cone =
     \<lparr>point = origin, length_c = PInt 100, sides = 3, rings = 1, dip = Finite (60 * pi / 180)\<rparr>"

text \<open>What \<open>points_polar\<close> returns for the first example in exact arithmetic.\<close>

definition example_polar :: "polar list" where
  "example_polar =
     [(0, PFloat (Finite 0), PFloat (Finite 0), PFloat (Finite (- 100))),
      (1, PFloat (Finite 25), PFloat (Finite 0), PFloat (Finite (- sqrt 9375))),
      (1, PFloat (Finite 25), PFloat (Finite (pi / 2)), PFloat (Finite (- sqrt 9375))),
      (1, PFloat (Finite 25), PFloat (Finite pi), PFloat (Finite (- sqrt 9375))),
      (1, PFloat (Finite 25), PFloat (Finite (3 * pi / 2)), PFloat (Finite (- sqrt 9375))),
      (2, PFloat (Finite 50), PFloat (Finite 0), PFloat (Finite (- sqrt 7500))),
      (2, PFloat (Finite 50), PFloat (Finite (pi / 2)), PFloat (Finite (- sqrt 7500))),
      (2, PFloat (Finite 50), PFloat (Finite pi), PFloat (Finite (- sqrt 7500))),
      (2, PFloat (Finite 50), PFloat (Finite (3 * pi / 2)), PFloat (Finite (- sqrt 7500))),
      (- 1, PInt 0, PInt 0, PInt 0)]"

subsection \<open>The specification's polar points\<close>

text \<open>The number of points tagged with ring \<open>i\<close>.\<close>

definition ring_count :: "polar list \<Rightarrow> int \<Rightarrow> int" where
  "ring_count pts i = int (length (filter (\<lambda>p. fst p = i) pts))"

text \<open>
  \<open>radius(i) = i * length * cos(dip) / rings\<close>,
  \<open>height(i) = -sqrt(length^2 - radius(i)^2)\<close> and \<open>angle(i, j) = j * 2 * pi / sides\<close>, in
  the arithmetic of the program.
\<close>

definition radius_spec :: "float_arith \<Rightarrow> cone \<Rightarrow> int \<Rightarrow> error + pynum" where
  "radius_spec fa c i =
     and_then (py_mul fa (PInt i) (length_c c)) (\<lambda>il.
     and_then (math_cos fa (PFloat (dip c))) (\<lambda>cd.
     and_then (py_mul fa il cd) (\<lambda>ilc.
       py_truediv fa ilc (PInt (rings c)))))"

definition height_spec :: "float_arith \<Rightarrow> cone \<Rightarrow> int \<Rightarrow> error + pynum" where
  "height_spec fa c i =
     and_then (radius_spec fa c i) (\<lambda>r.
     and_then (py_pow2 fa (length_c c)) (\<lambda>l2.
     and_then (py_pow2 fa r) (\<lambda>r2.
     and_then (py_sub fa l2 r2) (\<lambda>d.
     and_then (math_sqrt fa d) (\<lambda>s.
       Inr (py_neg s))))))"

definition angle_spec :: "float_arith \<Rightarrow> cone \<Rightarrow> int \<Rightarrow> error + pynum" where
  "angle_spec fa c j =
     and_then (py_mul fa (PInt (j * 2)) (PFloat (Finite (fl_pi fa)))) (\<lambda>jp.
       py_truediv fa jp (PInt (sides c)))"

text \<open>
  The points of ring \<open>i\<close>, one per side and only \<open>j = 0\<close> for ring 0, and the whole
  list with the apex point appended.
\<close>

definition ring_points_spec :: "float_arith \<Rightarrow> cone \<Rightarrow> int \<Rightarrow> error + polar list" where
  "ring_points_spec fa c i =
     and_then (radius_spec fa c i) (\<lambda>r.
     and_then (height_spec fa c i) (\<lambda>h.
     and_then (map_result (angle_spec fa c) (if i = 0 then [0] else [0 .. sides c - 1])) (\<lambda>as.
       Inr (map (\<lambda>a. (i, r, a, h)) as))))"

definition points_polar_spec :: "float_arith \<Rightarrow> cone \<Rightarrow> error + polar list" where
  "points_polar_spec fa c =
     and_then (map_result (ring_points_spec fa c) [0 .. rings c]) (\<lambda>rs.
       Inr (concat rs @ [(- 1, PInt 0, PInt 0, PInt 0)]))"

subsection \<open>Example results\<close>

text \<open>
  What \<open>points_cartesian\<close>, \<open>indices\<close> and \<open>faces\<close> return for the first example in
  exact arithmetic.
\<close>

definition example_cartesian :: "polar list" where
  "example_cartesian =
     [(0, PFloat (Finite 0), PFloat (Finite 0), PFloat (Finite (- 100))),
      (1, PFloat (Finite 25), PFloat (Finite 0), PFloat (Finite (- sqrt 9375))),
      (1, PFloat (Finite 0), PFloat (Finite 25), PFloat (Finite (- sqrt 9375))),
      (1, PFloat (Finite (- 25)), PFloat (Finite 0), PFloat (Finite (- sqrt 9375))),
      (1, PFloat (Finite (25 * cos (3 * pi / 2))), PFloat (Finite (25 * sin (3 * pi / 2))),
       PFloat (Finite (- sqrt 9375))),
      (2, PFloat (Finite 50), PFloat (Finite 0), PFloat (Finite (- sqrt 7500))),
      (2, PFloat (Finite 0), PFloat (Finite 50), PFloat (Finite (- sqrt 7500))),
      (2, PFloat (Finite (- 50)), PFloat (Finite 0), PFloat (Finite (- sqrt 7500))),
      (2, PFloat (Finite (50 * cos (3 * pi / 2))), PFloat (Finite (50 * sin (3 * pi / 2))),
       PFloat (Finite (- sqrt 7500))),
      (- 1, PFloat (Finite 0), PFloat (Finite 0), PInt 0)]"

definition example_indices :: "idxpt list" where
  "example_indices =
     [\<lparr>ring = 0, idx = 1\<rparr>, \<lparr>ring = 1, idx = 2\<rparr>, \<lparr>ring = 1, idx = 3\<rparr>,
      \<lparr>ring = 1, idx = 4\<rparr>, \<lparr>ring = 1, idx = 5\<rparr>, \<lparr>ring = 2, idx = 6\<rparr>,
      \<lparr>ring = 2, idx = 7\<rparr>, \<lparr>ring = 2, idx = 8\<rparr>, \<lparr>ring = 2, idx = 9\<rparr>,
      \<lparr>ring = - 1, idx = 10\<rparr>]"

definition example_faces :: "face list" where
  "example_faces =
     [(1, 2, 3), (1, 3, 4), (1, 4, 5), (1, 5, 2),
      (2, 3, 6), (3, 4, 7), (4, 5, 8), (5, 2, 9),
      (3, 6, 7), (4, 7, 8), (5, 8, 9), (2, 9, 6),
      (10, 6, 7), (10, 7, 8), (10, 8, 9), (10, 9, 6)]"

section \<open>Ring tags of the points\<close>

lemma and_then_Inl [simp]: "and_then (Inl e) f = Inl e"
  by (simp add: and_then_def)

lemma and_then_Inr [simp]: "and_then (Inr v) f = f v"
  by (simp add: and_then_def)

lemma and_then_eq_Inr: "and_then m f = Inr y \<longleftrightarrow> (\<exists>v. m = Inr v \<and> f v = Inr y)"
  by (cases m) simp_all

lemma map_result_length: "map_result f xs = Inr ys \<Longrightarrow> length ys = length xs"
  by (induction xs arbitrary: ys) (auto simp: and_then_eq_Inr)

lemma map_result_nth:
  "map_result f xs = Inr ys \<Longrightarrow> k < length xs \<Longrightarrow> f (xs ! k) = Inr (ys ! k)"
proof (induction xs arbitrary: ys k)
  case Nil
  then show ?case by simp
next
  case (Cons x xs)
  from Cons.prems(1) obtain y ys' where y: "f x = Inr y" and ys': "map_result f xs = Inr ys'"
    and ys: "ys = y # ys'"
    by (auto simp: and_then_eq_Inr)
  show ?case
  proof (cases k)
    case 0
    then show ?thesis using y ys by simp
  next
    case (Suc k')
    then show ?thesis using Cons.IH [OF ys', of k'] Cons.prems(2) ys by simp
  qed
qed

lemma valid_clamped: "valid c \<Longrightarrow> clamped c"
  by (simp add: valid_def clamped_def)

lemma polar_sides_tags:
  "polar_sides fa c i r h js pts = Inr pts' \<Longrightarrow>
     map fst pts' = map fst pts @ map (\<lambda>j. i) (filter (\<lambda>j. \<not> (i = 0 \<and> j > 0)) js)"
proof (induction js arbitrary: pts)
  case Nil
  then show ?case by simp
next
  case (Cons j js)
  from Cons.prems obtain a where
    step: "(if i = 0 \<and> j > 0 then polar_sides fa c i r h js pts
            else polar_sides fa c i r h js (pts @ [(i, r, a, h)])) = Inr pts'"
    by (auto simp: and_then_eq_Inr)
  show ?case
  proof (cases "i = 0 \<and> j > 0")
    case True
    then show ?thesis using step Cons.IH [of pts] by simp
  next
    case False
    then show ?thesis using step Cons.IH [of "pts @ [(i, r, a, h)]"] by auto
  qed
qed

lemma filter_first_only:
  "0 \<le> n \<Longrightarrow> filter (\<lambda>j. \<not> 0 < j) [0 .. n] = [0::int]"
  by (subst upto_rec1) (auto simp: filter_empty_conv)

lemma ring_tags_filter:
  assumes "1 \<le> sides c"
  shows "map (\<lambda>j. i) (filter (\<lambda>j. \<not> (i = 0 \<and> j > 0)) [0 .. sides c - 1]) = ring_tags c i"
proof (cases "i = 0")
  case True
  then show ?thesis using assms by (simp add: ring_tags_def filter_first_only)
next
  case False
  then show ?thesis by (simp add: ring_tags_def)
qed

lemma polar_rings_tags:
  assumes "1 \<le> sides c"
  shows "polar_rings fa c is pts = Inr pts' \<Longrightarrow>
           map fst pts' = map fst pts @ concat (map (ring_tags c) is)"
proof (induction "is" arbitrary: pts)
  case Nil
  then show ?case by simp
next
  case (Cons i "is")
  from Cons.prems obtain r h mid where
    mid: "polar_sides fa c i r h [0 .. sides c - 1] pts = Inr mid"
    and rest: "polar_rings fa c is mid = Inr pts'"
    by (auto simp: and_then_eq_Inr)
  have "map fst mid = map fst pts @ ring_tags c i"
    using polar_sides_tags [OF mid] ring_tags_filter [OF assms] by simp
  then show ?case using Cons.IH [OF rest] by simp
qed

lemma points_polar_tags:
  assumes "1 \<le> sides c" "points_polar fa c = Inr pts"
  shows "map fst pts = concat (map (ring_tags c) [0 .. rings c]) @ [- 1]"
proof -
  from assms(2) obtain body where b: "polar_rings fa c [0 .. rings c] [] = Inr body"
    and p: "pts = body @ [(- 1, PInt 0, PInt 0, PInt 0)]"
    by (auto simp: points_polar_def and_then_eq_Inr)
  show ?thesis using polar_rings_tags [OF assms(1) b] p by simp
qed

lemma cartesian_tag: "cartesian fa c p = Inr q \<Longrightarrow> fst q = fst p"
  by (cases p) (auto simp: cartesian_def and_then_eq_Inr)

lemma map_result_tags:
  "map_result (cartesian fa c) pts = Inr qs \<Longrightarrow> map fst qs = map fst pts"
proof (induction pts arbitrary: qs)
  case Nil
  then show ?case by simp
next
  case (Cons p pts)
  then show ?case by (auto simp: and_then_eq_Inr dest: cartesian_tag)
qed

lemma points_cartesian_polar:
  assumes "points_cartesian fa c = Inr pc"
  shows "\<exists>pp. points_polar fa c = Inr pp \<and> map fst pc = map fst pp"
  using assms by (auto simp: points_cartesian_def and_then_eq_Inr dest: map_result_tags)

lemma points_cartesian_tags:
  assumes "1 \<le> sides c" "points_cartesian fa c = Inr pc"
  shows "map fst pc = concat (map (ring_tags c) [0 .. rings c]) @ [- 1]"
  using points_cartesian_polar [OF assms(2)] points_polar_tags [OF assms(1)] by auto

section \<open>Indices\<close>

lemma enumerate_from_append:
  "enumerate_from k (xs @ ys) = enumerate_from k xs @ enumerate_from (k + int (length xs)) ys"
  by (induction xs arbitrary: k) (simp_all add: algebra_simps)

lemma length_enumerate_from: "length (enumerate_from k xs) = length xs"
  by (induction xs arbitrary: k) simp_all

lemma number_from_append:
  "number_from k (xs @ ys) = number_from k xs @ number_from (k + int (length xs)) ys"
  by (simp add: number_from_def enumerate_from_append)

lemma number_from_Cons:
  "number_from k (t # ts) = \<lparr>ring = t, idx = k + 1\<rparr> # number_from (k + 1) ts"
  by (simp add: number_from_def)

lemma number_from_Nil: "number_from k [] = []"
  by (simp add: number_from_def)

lemma length_number_from: "length (number_from k ts) = length ts"
  by (simp add: number_from_def length_enumerate_from)

lemma map_idx_number_from: "map idx (number_from k ts) = [k + 1 .. k + int (length ts)]"
proof (induction ts arbitrary: k)
  case Nil
  then show ?case by (simp add: number_from_Nil)
next
  case (Cons t ts)
  have "[k + 1 .. k + int (length (t # ts))] = (k + 1) # [k + 1 + 1 .. k + int (length (t # ts))]"
    by (subst upto_rec1) simp_all
  then show ?case using Cons.IH [of "k + 1"] by (simp add: number_from_Cons algebra_simps)
qed

lemma number_from_points:
  "map (\<lambda>(k, i). \<lparr>ring = fst i, idx = k + 1\<rparr>) (enumerate_from k pts) = number_from k (map fst pts)"
  by (induction pts arbitrary: k) (simp_all add: number_from_Cons number_from_Nil)

lemma number_from_block:
  "number_from k (map (\<lambda>j. i) [a .. b]) = map (\<lambda>m. \<lparr>ring = i, idx = m\<rparr>) [k + 1 .. k + 1 + (b - a)]"
proof (induction a b arbitrary: k rule: upto.induct)
  case (1 a b)
  show ?case
  proof (cases "a \<le> b")
    case True
    have l: "[a .. b] = a # [a + 1 .. b]" using True by (simp add: upto_rec1)
    have r: "[k + 1 .. k + 1 + (b - a)] = (k + 1) # [k + 1 + 1 .. k + 1 + (b - a)]"
      using True by (subst upto_rec1) simp_all
    show ?thesis
      unfolding l r using "1.IH" [OF True, of "k + 1"]
      by (simp add: number_from_Cons algebra_simps)
  next
    case False
    then show ?thesis by (simp add: number_from_Nil)
  qed
qed

lemma length_ring_tags:
  "1 \<le> sides c \<Longrightarrow> int (length (ring_tags c i)) = (if i = 0 then 1 else sides c)"
  by (simp add: ring_tags_def)

lemma number_from_ring:
  assumes "1 \<le> sides c" "0 \<le> i"
  shows "number_from (if i = 0 then 0 else 1 + (i - 1) * sides c) (ring_tags c i)
         = map (\<lambda>m. \<lparr>ring = i, idx = m\<rparr>) (ring_idx_spec c i)"
proof (cases "i = 0")
  case True
  then show ?thesis
    by (simp add: ring_tags_def ring_idx_spec_def number_from_Cons number_from_Nil)
next
  case False
  have "number_from (1 + (i - 1) * sides c) (map (\<lambda>j. i) [0 .. sides c - 1])
        = map (\<lambda>m. \<lparr>ring = i, idx = m\<rparr>)
            [1 + (i - 1) * sides c + 1 .. 1 + (i - 1) * sides c + 1 + (sides c - 1 - 0)]"
    by (rule number_from_block)
  moreover have "1 + (i - 1) * sides c + 1 = 2 + (i - 1) * sides c" by simp
  moreover have "1 + (i - 1) * sides c + 1 + (sides c - 1 - 0) = 1 + i * sides c"
    by (simp add: algebra_simps)
  ultimately show ?thesis using False
    by (simp add: ring_tags_def ring_idx_spec_def)
qed

lemma rings_numbered:
  assumes s: "1 \<le> sides c" and r: "0 \<le> r"
  shows "int (length (concat (map (ring_tags c) [0 .. r]))) = 1 + r * sides c
       \<and> number_from 0 (concat (map (ring_tags c) [0 .. r]))
         = concat (map (\<lambda>i. map (\<lambda>m. \<lparr>ring = i, idx = m\<rparr>) (ring_idx_spec c i)) [0 .. r])"
  using r
proof (induction r rule: int_ge_induct)
  case base
  have "[0 .. 0::int] = [0]" by (simp add: upto_rec1)
  then show ?case using number_from_ring [OF s, of 0] s
    by (simp add: length_ring_tags)
next
  case (step r)
  have split: "[0 .. r + 1] = [0 .. r] @ [r + 1]"
    using step.hyps by (simp add: upto_rec2)
  have len: "int (length (concat (map (ring_tags c) [0 .. r]))) = 1 + r * sides c"
    using step.IH by simp
  have num: "number_from 0 (concat (map (ring_tags c) [0 .. r]))
         = concat (map (\<lambda>i. map (\<lambda>m. \<lparr>ring = i, idx = m\<rparr>) (ring_idx_spec c i)) [0 .. r])"
    using step.IH by simp
  have blk: "number_from (1 + r * sides c) (ring_tags c (r + 1))
         = map (\<lambda>m. \<lparr>ring = r + 1, idx = m\<rparr>) (ring_idx_spec c (r + 1))"
    using number_from_ring [OF s, of "r + 1"] step.hyps by simp
  have l1: "int (length (ring_tags c (r + 1))) = sides c"
    using length_ring_tags [OF s, of "r + 1"] step.hyps by simp
  show ?case
  proof
    show "int (length (concat (map (ring_tags c) [0 .. r + 1]))) = 1 + (r + 1) * sides c"
      unfolding split using len l1 by (simp add: algebra_simps)
    show "number_from 0 (concat (map (ring_tags c) [0 .. r + 1]))
         = concat (map (\<lambda>i. map (\<lambda>m. \<lparr>ring = i, idx = m\<rparr>) (ring_idx_spec c i)) [0 .. r + 1])"
      unfolding split using len num blk by (simp add: number_from_append)
  qed
qed

lemma number_from_all_tags:
  assumes "clamped c"
  shows "number_from 0 (concat (map (ring_tags c) [0 .. rings c]) @ [- 1]) = indexed_spec c"
proof -
  have s: "1 \<le> sides c" and r: "0 \<le> rings c" using assms by (simp_all add: clamped_def)
  show ?thesis
    using rings_numbered [OF s r]
    by (simp add: number_from_append number_from_Cons number_from_Nil indexed_spec_def algebra_simps)
qed

lemma length_all_tags:
  assumes "clamped c"
  shows "int (length (concat (map (ring_tags c) [0 .. rings c]) @ [- 1::int])) = rings c * sides c + 2"
proof -
  have s: "1 \<le> sides c" and r: "0 \<le> rings c" using assms by (simp_all add: clamped_def)
  show ?thesis using rings_numbered [OF s r] by simp
qed

lemma indices_cartesian:
  "indices fa c = Inr ix \<longleftrightarrow>
     (\<exists>pc. points_cartesian fa c = Inr pc \<and> ix = number_from 0 (map fst pc))"
  by (auto simp: indices_def and_then_eq_Inr number_from_points)

lemma indices_clamped:
  assumes "clamped c" "indices fa c = Inr ix"
  shows "ix = indexed_spec c"
proof -
  have s: "1 \<le> sides c" using assms(1) by (simp add: clamped_def)
  from assms(2) obtain pc where pc: "points_cartesian fa c = Inr pc"
    and ix: "ix = number_from 0 (map fst pc)"
    by (auto simp: indices_cartesian)
  show ?thesis
    unfolding ix points_cartesian_tags [OF s pc] by (rule number_from_all_tags [OF assms(1)])
qed

section \<open>Rings of the index list\<close>

lemma concat_map_single:
  assumes "a \<le> i" "i \<le> b"
  shows "concat (map (\<lambda>k. if k = i then f k else []) [a .. b]) = f i"
proof -
  have split: "[a .. b] = [a .. i - 1] @ i # [i + 1 .. b]"
    using assms by (rule upto_split3)
  have l: "concat (map (\<lambda>k. if k = i then f k else []) [a .. i - 1]) = []"
    by auto
  have r: "concat (map (\<lambda>k. if k = i then f k else []) [i + 1 .. b]) = []"
    by auto
  have "concat (map (\<lambda>k. if k = i then f k else []) ([a .. i - 1] @ i # [i + 1 .. b]))
      = concat (map (\<lambda>k. if k = i then f k else []) [a .. i - 1]) @ f i
        @ concat (map (\<lambda>k. if k = i then f k else []) [i + 1 .. b])"
    by simp
  also have "\<dots> = f i" unfolding l r by simp
  finally show ?thesis unfolding split .
qed

lemma filter_ring_block:
  "filter (\<lambda>pt. ring pt = i) (map (\<lambda>m. \<lparr>ring = k, idx = m\<rparr>) ms)
     = (if k = i then map (\<lambda>m. \<lparr>ring = i, idx = m\<rparr>) ms else [])"
  by (induction ms) simp_all

lemma filter_ring_indexed:
  assumes "0 \<le> i" "i \<le> rings c"
  shows "filter (\<lambda>pt. ring pt = i) (indexed_spec c) = map (\<lambda>m. \<lparr>ring = i, idx = m\<rparr>) (ring_idx_spec c i)"
proof -
  have "filter (\<lambda>pt. ring pt = i) (indexed_spec c)
      = concat (map (\<lambda>k. if k = i then map (\<lambda>m. \<lparr>ring = k, idx = m\<rparr>) (ring_idx_spec c k) else [])
                 [0 .. rings c])"
    using assms(1)
    by (simp add: indexed_spec_def filter_concat comp_def filter_ring_block cong: if_cong)
  also have "\<dots> = map (\<lambda>m. \<lparr>ring = i, idx = m\<rparr>) (ring_idx_spec c i)"
    using assms by (rule concat_map_single)
  finally show ?thesis .
qed

lemma ring_indices_indexed:
  assumes "0 \<le> i" "i \<le> rings c"
  shows "ring_indices (indexed_spec c) i = ring_idx_spec c i"
  by (simp add: ring_indices_def filter_ring_indexed [OF assms] comp_def)

lemma length_ring_idx_spec:
  assumes "0 \<le> sides c" "1 \<le> i"
  shows "length (ring_idx_spec c i) = nat (sides c)"
  using assms by (simp add: ring_idx_spec_def algebra_simps)

lemma shift_one: "xs \<noteq> [] \<Longrightarrow> shift xs 1 = Inr (rotate1 xs)"
proof (cases xs)
  case Nil
  assume "xs \<noteq> []" with Nil show ?thesis by simp
next
  case (Cons x rest)
  show ?thesis
  proof (cases rest)
    case Nil
    with Cons show ?thesis by (simp add: shift_def)
  next
    case (Cons y rest')
    have "(1::int) mod (2 + int (length rest')) = 1" by simp
    with \<open>xs = x # rest\<close> Cons show ?thesis by (simp add: shift_def)
  qed
qed

lemma last_indexed_spec: "idx (last (indexed_spec c)) = rings c * sides c + 2"
  by (simp add: indexed_spec_def)

section \<open>The face loop\<close>

lemma map_zip_nth:
  assumes "length xs = n" "length ys = n"
  shows "map f (zip xs ys) = map (\<lambda>k. f (xs ! k, ys ! k)) [0 ..< n]"
  using assms by (intro nth_equalityI) simp_all

lemma zip3_nth:
  assumes "length xs = n" "length ys = n" "length zs = n"
  shows "zip3 xs ys zs = map (\<lambda>k. (xs ! k, ys ! k, zs ! k)) [0 ..< n]"
  using assms unfolding zip3_def by (intro nth_equalityI) simp_all

lemma triple_id: "map (\<lambda>(a, b, d). (a, b, d)) xs = xs"
  by (induction xs) auto

lemma ring_idx_spec_nonempty: "1 \<le> sides c \<Longrightarrow> ring_idx_spec c i \<noteq> []"
  by (simp add: ring_idx_spec_def algebra_simps)

lemma faces_step:
  assumes v: "clamped c" and i: "0 \<le> i" "i \<le> rings c - 1"
  shows "faces_loop c (indexed_spec c) (i # is) fs
         = faces_loop c (indexed_spec c) is (fs @ ring_faces_spec c i)"
proof -
  have s1: "1 \<le> sides c" and s0: "0 \<le> sides c" using v by (simp_all add: clamped_def)
  have cur: "filter (\<lambda>pt. ring pt = i) (indexed_spec c)
             = map (\<lambda>m. \<lparr>ring = i, idx = m\<rparr>) (ring_idx_spec c i)"
    using i by (intro filter_ring_indexed) simp_all
  have nxt: "filter (\<lambda>pt. ring pt = i + 1) (indexed_spec c)
             = map (\<lambda>m. \<lparr>ring = i + 1, idx = m\<rparr>) (ring_idx_spec c (i + 1))"
    using i by (intro filter_ring_indexed) simp_all
  have idx_cur: "map idx (map (\<lambda>m. \<lparr>ring = i, idx = m\<rparr>) (ring_idx_spec c i)) = ring_idx_spec c i"
    by (simp add: comp_def)
  have idx_nxt: "map idx (map (\<lambda>m. \<lparr>ring = i + 1, idx = m\<rparr>) (ring_idx_spec c (i + 1)))
                 = ring_idx_spec c (i + 1)"
    by (simp add: comp_def)
  have len_nxt: "length (ring_idx_spec c (i + 1)) = nat (sides c)"
    using i by (intro length_ring_idx_spec [OF s0]) simp
  have sh_nxt: "shift (ring_idx_spec c (i + 1)) 1 = Inr (rotate1 (ring_idx_spec c (i + 1)))"
    by (rule shift_one [OF ring_idx_spec_nonempty [OF s1]])
  have sh_cur: "shift (ring_idx_spec c i) 1 = Inr (rotate1 (ring_idx_spec c i))"
    by (rule shift_one [OF ring_idx_spec_nonempty [OF s1]])
  have ne: "indexed_spec c \<noteq> []" by (simp add: indexed_spec_def)
  show ?thesis
  proof (cases "i = 0")
    case True
    have cur0: "filter (\<lambda>pt. ring pt = 0) (indexed_spec c) = [\<lparr>ring = 0, idx = 1\<rparr>]"
      using cur True by (simp add: ring_idx_spec_def)
    have nxt1: "map idx (filter (\<lambda>pt. ring pt = 1) (indexed_spec c)) = ring_idx_spec c 1"
      using nxt idx_nxt True by simp
    have fan: "map (\<lambda>(i2, i3). (1, i2, i3)) (zip (ring_idx_spec c 1) (rotate1 (ring_idx_spec c 1)))
               = tip_fan_spec (nat (sides c)) 1 (ring_idx_spec c 1)"
      unfolding tip_fan_spec_def using len_nxt True
      by (subst map_zip_nth [where n = "nat (sides c)"]) simp_all
    show ?thesis
      using True sh_nxt fan
      by (simp add: cur0 nxt1 ring_faces_spec_def Let_def)
  next
    case False
    then have pos: "0 < i" using i by simp
    have len_cur: "length (ring_idx_spec c i) = nat (sides c)"
      using pos by (intro length_ring_idx_spec [OF s0]) simp
    have b1: "zip3 (ring_idx_spec c i) (rotate1 (ring_idx_spec c i)) (ring_idx_spec c (i + 1))
              = map (\<lambda>k. (ring_idx_spec c i ! k, rotate1 (ring_idx_spec c i) ! k,
                           ring_idx_spec c (i + 1) ! k)) [0 ..< nat (sides c)]"
      using len_cur len_nxt by (intro zip3_nth) simp_all
    have b2: "zip3 (rotate1 (ring_idx_spec c i)) (ring_idx_spec c (i + 1))
                   (rotate1 (ring_idx_spec c (i + 1)))
              = map (\<lambda>k. (rotate1 (ring_idx_spec c i) ! k, ring_idx_spec c (i + 1) ! k,
                           rotate1 (ring_idx_spec c (i + 1)) ! k)) [0 ..< nat (sides c)]"
      using len_cur len_nxt by (intro zip3_nth) simp_all
    have fan: "map (\<lambda>(i3, i4). (rings c * sides c + 2, i3, i4))
                 (zip (ring_idx_spec c (rings c)) (rotate1 (ring_idx_spec c (rings c))))
               = apex_fan_spec (nat (sides c)) (rings c * sides c + 2) (ring_idx_spec c (rings c))"
      unfolding apex_fan_spec_def using length_ring_idx_spec [OF s0, of "rings c"] v
      by (subst map_zip_nth [where n = "nat (sides c)"]) (simp_all add: clamped_def)
    show ?thesis
      using False pos sh_cur sh_nxt ne fan
      by (simp add: cur nxt idx_cur idx_nxt triple_id b1 b2 last_indexed_spec
            ring_faces_spec_def body_spec_def Let_def del: map_map)
  qed
qed

lemma faces_loop_clamped:
  assumes "clamped c" "\<forall>i \<in> set is. 0 \<le> i \<and> i \<le> rings c - 1"
  shows "faces_loop c (indexed_spec c) is fs = Inr (fs @ concat (map (ring_faces_spec c) is))"
  using assms(2)
proof (induction "is" arbitrary: fs)
  case Nil
  then show ?case by simp
next
  case (Cons i "is")
  have "faces_loop c (indexed_spec c) (i # is) fs
        = faces_loop c (indexed_spec c) is (fs @ ring_faces_spec c i)"
    using Cons.prems by (intro faces_step [OF assms(1)]) simp_all
  also have "\<dots> = Inr ((fs @ ring_faces_spec c i) @ concat (map (ring_faces_spec c) is))"
    using Cons.prems by (intro Cons.IH) simp
  finally show ?case by simp
qed

lemma concat_last_extra:
  fixes r :: int
  shows "concat (map (\<lambda>i. f i @ (if i = r - 1 then X else [])) [1 .. r - 1])
         = concat (map f [1 .. r - 1]) @ (if 2 \<le> r then X else [])"
proof (cases "2 \<le> r")
  case True
  then have split: "[1 .. r - 1] = [1 .. r - 2] @ [r - 1]"
    using upto_rec2 [of 1 "r - 1"] by simp
  have m: "map (\<lambda>i. f i @ (if i = r - 1 then X else [])) [1 .. r - 2] = map f [1 .. r - 2]"
    by (rule map_cong) auto
  have "concat (map (\<lambda>i. f i @ (if i = r - 1 then X else [])) ([1 .. r - 2] @ [r - 1]))
        = concat (map (\<lambda>i. f i @ (if i = r - 1 then X else [])) [1 .. r - 2]) @ f (r - 1) @ X"
    by simp
  also have "\<dots> = concat (map f [1 .. r - 2]) @ f (r - 1) @ X"
    unfolding m ..
  also have "\<dots> = concat (map f ([1 .. r - 2] @ [r - 1])) @ X"
    by simp
  finally show ?thesis using True unfolding split by simp
next
  case False
  then show ?thesis by simp
qed

lemma length_body_spec: "length (body_spec n A B) = 2 * n"
  by (simp add: body_spec_def)

section \<open>Index ranges and the number of faces\<close>

lemma ring_idx_bounds:
  assumes s: "1 \<le> sides c" and i: "0 \<le> i" "i \<le> rings c" and m: "m \<in> set (ring_idx_spec c i)"
  shows "1 \<le> m \<and> m \<le> rings c * sides c + 2"
proof (cases "i = 0")
  case True
  have "0 \<le> rings c * sides c" using s i by simp
  with True m show ?thesis by (simp add: ring_idx_spec_def)
next
  case False
  then have i1: "1 \<le> i" using i by simp
  have lo: "0 \<le> (i - 1) * sides c" using i1 s by simp
  have hi: "i * sides c \<le> rings c * sides c" using i s by (intro mult_right_mono) simp_all
  from m False have "2 + (i - 1) * sides c \<le> m" "m \<le> 1 + i * sides c"
    by (simp_all add: ring_idx_spec_def)
  with lo hi show ?thesis by linarith
qed

lemma nth_rotate1_in_set: "k < length xs \<Longrightarrow> rotate1 xs ! k \<in> set xs"
proof -
  assume "k < length xs"
  then have "rotate1 xs ! k \<in> set (rotate1 xs)" by (intro nth_mem) simp
  then show ?thesis by simp
qed

lemma tip_fan_in_range:
  assumes "length N1 = n" "1 \<le> t" "t \<le> b" "\<forall>m \<in> set N1. 1 \<le> m \<and> m \<le> b"
  shows "list_all (face_in_range b) (tip_fan_spec n t N1)"
  using assms by (auto simp: list_all_iff tip_fan_spec_def face_in_range_def nth_rotate1_in_set)

lemma apex_fan_in_range:
  assumes "length B = n" "1 \<le> a" "a \<le> b" "\<forall>m \<in> set B. 1 \<le> m \<and> m \<le> b"
  shows "list_all (face_in_range b) (apex_fan_spec n a B)"
  using assms by (auto simp: list_all_iff apex_fan_spec_def face_in_range_def nth_rotate1_in_set)

lemma body_in_range:
  assumes "length A = n" "length B = n"
    "\<forall>m \<in> set A. 1 \<le> m \<and> m \<le> b" "\<forall>m \<in> set B. 1 \<le> m \<and> m \<le> b"
  shows "list_all (face_in_range b) (body_spec n A B)"
  using assms by (auto simp: list_all_iff body_spec_def face_in_range_def nth_rotate1_in_set)

lemma faces_spec_in_range:
  assumes "clamped c"
  shows "list_all (face_in_range (rings c * sides c + 2)) (faces_spec c)"
proof -
  have s: "1 \<le> sides c" and s0: "0 \<le> sides c" and r: "1 \<le> rings c"
    using assms by (simp_all add: clamped_def)
  have rng: "\<And>i. 0 \<le> i \<Longrightarrow> i \<le> rings c \<Longrightarrow>
               \<forall>m \<in> set (ring_idx_spec c i). 1 \<le> m \<and> m \<le> rings c * sides c + 2"
    using ring_idx_bounds [OF s] by blast
  have len: "\<And>i. 1 \<le> i \<Longrightarrow> length (ring_idx_spec c i) = nat (sides c)"
    by (rule length_ring_idx_spec [OF s0])
  have big: "0 \<le> rings c * sides c" using s r by simp
  have tip: "list_all (face_in_range (rings c * sides c + 2))
               (tip_fan_spec (nat (sides c)) 1 (ring_idx_spec c 1))"
    using big r by (intro tip_fan_in_range len rng) simp_all
  have body: "list_all (face_in_range (rings c * sides c + 2))
                (concat (map (\<lambda>i. body_spec (nat (sides c)) (ring_idx_spec c i) (ring_idx_spec c (i + 1)))
                           [1 .. rings c - 1]))"
  proof -
    have "\<And>i. i \<in> set [1 .. rings c - 1] \<Longrightarrow>
            list_all (face_in_range (rings c * sides c + 2))
              (body_spec (nat (sides c)) (ring_idx_spec c i) (ring_idx_spec c (i + 1)))"
      by (intro body_in_range len rng) simp_all
    then show ?thesis by (auto simp: list_all_iff)
  qed
  have apex: "2 \<le> rings c \<Longrightarrow> list_all (face_in_range (rings c * sides c + 2))
                (apex_fan_spec (nat (sides c)) (rings c * sides c + 2) (ring_idx_spec c (rings c)))"
    using big r by (intro apex_fan_in_range len rng) simp_all
  show ?thesis
    using tip body apex by (simp add: faces_spec_def)
qed

lemma length_faces_spec:
  assumes "clamped c"
  shows "int (length (faces_spec c)) = (if rings c = 1 then sides c else 2 * sides c * rings c)"
proof -
  have r: "1 \<le> rings c" and s: "0 \<le> sides c" using assms by (simp_all add: clamped_def)
  have "length (concat (map (\<lambda>i. body_spec (nat (sides c)) (ring_idx_spec c i) (ring_idx_spec c (i + 1)))
                [1 .. rings c - 1])) = nat (rings c - 1) * (2 * nat (sides c))"
    by (simp add: length_concat comp_def length_body_spec sum_list_triv)
  then show ?thesis using r s
    by (simp add: faces_spec_def tip_fan_spec_def apex_fan_spec_def nat_mult_distrib algebra_simps)
qed

section \<open>The face list as a whole\<close>

lemma faces_loop_spec:
  assumes "clamped c"
  shows "faces_loop c (indexed_spec c) [0 .. rings c - 1] [] = Inr (faces_spec c)"
proof -
  have r: "1 \<le> rings c" using assms by (simp add: clamped_def)
  then have split: "[0 .. rings c - 1] = 0 # [1 .. rings c - 1]"
    by (subst upto_rec1) simp_all
  have body: "map (ring_faces_spec c) [1 .. rings c - 1]
     = map (\<lambda>i. body_spec (nat (sides c)) (ring_idx_spec c i) (ring_idx_spec c (i + 1))
                 @ (if i = rings c - 1
                    then apex_fan_spec (nat (sides c)) (rings c * sides c + 2) (ring_idx_spec c (rings c))
                    else [])) [1 .. rings c - 1]"
    by (rule map_cong) (auto simp: ring_faces_spec_def)
  have "faces_loop c (indexed_spec c) [0 .. rings c - 1] []
        = Inr (concat (map (ring_faces_spec c) [0 .. rings c - 1]))"
    using faces_loop_clamped [OF assms, of "[0 .. rings c - 1]" "[]"] by simp
  also have "concat (map (ring_faces_spec c) [0 .. rings c - 1]) = faces_spec c"
    unfolding split faces_spec_def
    by (simp add: body concat_last_extra ring_faces_spec_def)
  finally show ?thesis .
qed

lemma faces_indices:
  "faces fa c = Inr fs \<longleftrightarrow>
     (\<exists>ix. indices fa c = Inr ix \<and> faces_loop c ix [0 .. rings c - 1] [] = Inr fs)"
  by (simp add: faces_def and_then_eq_Inr)

lemma faces_clamped:
  assumes "clamped c" "faces fa c = Inr fs"
  shows "indices fa c = Inr (indexed_spec c) \<and> fs = faces_spec c"
proof -
  from assms(2) obtain ix where ix: "indices fa c = Inr ix"
    and loop: "faces_loop c ix [0 .. rings c - 1] [] = Inr fs"
    by (auto simp: faces_indices)
  have e: "ix = indexed_spec c" by (rule indices_clamped [OF assms(1) ix])
  show ?thesis using ix loop faces_loop_spec [OF assms(1)] unfolding e by simp
qed

lemma faces_of_indices:
  assumes "clamped c" "indices fa c = Inr ix"
  shows "faces fa c = Inr (faces_spec c)"
  using assms faces_loop_spec [OF assms(1)] indices_clamped [OF assms]
  by (simp add: faces_def)

section \<open>Construction\<close>

lemma math_radians_in_range:
  assumes "\<not> num_le v 0" "\<not> num_ge v 90"
  shows "math_radians fa v = Inr (radians_float fa (exact_float v))"
proof (cases v)
  case (PInt n)
  with assms have "0 < n" "n < 90" by simp_all
  then have "\<bar>n\<bar> \<le> 9007199254740992" by simp
  with PInt show ?thesis by (simp add: math_radians_def to_float_def)
next
  case (PFloat f)
  then show ?thesis by (simp add: math_radians_def to_float_def)
qed

lemma Cone_post_init_number_cases:
  assumes "is_number len" "is_number dp"
  shows "Cone_post_init fa (PyPoint pt) len sd rg dp =
     (if \<not> num_gt (num_val len) 0 then ([], Inl (ValueError ''length must be a positive float''))
      else if \<not> isinstance_int sd \<or> \<not> isinstance_int rg
        then ([], Inl (ValueError ''sides and rings must be an integers''))
      else if num_le (num_val dp) 0 \<or> num_ge (num_val dp) 90
        then (notices_spec sd rg, Inl (ValueError ''dip must be larger than (0 and smaller than 90]''))
      else (notices_spec sd rg,
            Inr \<lparr>point = pt, length_c = num_val len, sides = max 3 (int_val sd),
                 rings = max 1 (int_val rg), dip = radians_float fa (exact_float (num_val dp))\<rparr>))"
  using assms
  by (simp add: Cone_post_init_def py_gt_def py_le_def py_ge_def notices_spec_def SIDES_MIN_def
        RINGS_MIN_def DIP_MIN_def DIP_MAX_def Let_def not_less max_def math_radians_in_range)






text \<open>What every successful construction does establish.\<close>

lemma Cone_post_init_clamped:
  assumes "Cone_post_init fa p len sd rg dp = (out, Inr c)"
  shows "clamped c \<and> num_gt (length_c c) 0"
proof -
  from assms obtain pt where p: "p = PyPoint pt"
    by (cases p) (simp_all add: Cone_post_init_def)
  from assms have len: "is_number len"
    unfolding p Cone_post_init_def py_gt_def by (simp split: if_splits)
  from assms len have dp: "is_number dp"
    unfolding p Cone_post_init_def py_gt_def py_le_def
    by (auto simp: Let_def split: if_splits sum.splits prod.splits)
  from assms show ?thesis
    unfolding p Cone_post_init_number_cases [OF len dp]
    by (auto simp: clamped_def split: if_splits)
qed

text \<open>
  C8. The claim says that every successfully constructed cone stores a dip strictly
  between 0 and \<open>pi / 2\<close>. With \<open>dip = float('nan')\<close> both comparisons of the dip test
  are false, so \<open>Cone(Point(0, 0, 0), 100, 4, 2, nan)\<close> is built and stores NaN. The
  length test, written \<open>not length > 0\<close>, does reject NaN.
\<close>

theorem Cone_post_init_accepts_nan_dip:
  "Cone_post_init fa (PyPoint origin) (PyInt 100) (PyInt 4) (PyInt 2) (PyFloat NaN)
     = ([], Inr \<lparr>point = origin, length_c = PInt 100, sides = 4, rings = 2, dip = NaN\<rparr>)
   \<and> \<not> dip_in_range NaN
   \<and> is_ValueError (snd (Cone_post_init fa (PyPoint origin) (PyFloat NaN) (PyInt 4) (PyInt 2) (PyInt 60)))"
proof -
  have n: "is_number (PyInt 100)" "is_number (PyFloat NaN)" "is_number (PyInt 60)"
    by (simp_all add: is_number_def)
  show ?thesis
    by (simp add: Cone_post_init_number_cases [OF n(1) n(2)] Cone_post_init_number_cases [OF n(2) n(3)]
          notices_spec_def)
qed

lemma example_cone_constructed:
  "Cone_post_init exact_arith (PyPoint origin) (PyInt 100) (PyInt 4) (PyInt 2) (PyInt 60)
     = ([], Inr example_cone)"
proof -
  have n: "is_number (PyInt 100)" "is_number (PyInt 60)" by (simp_all add: is_number_def)
  show ?thesis
    by (simp add: Cone_post_init_number_cases [OF n] notices_spec_def example_cone_def exact_arith_def)
qed

lemma one_ring_cone_constructed:
  "Cone_post_init exact_arith (PyPoint origin) (PyInt 100) (PyInt 3) (PyInt 1) (PyInt 60)
     = ([], Inr one_ring_cone)"
proof -
  have n: "is_number (PyInt 100)" "is_number (PyInt 60)" by (simp_all add: is_number_def)
  show ?thesis
    by (simp add: Cone_post_init_number_cases [OF n] notices_spec_def one_ring_cone_def exact_arith_def)
qed

text \<open>
  C10. A boolean passes the numeric and the integer checks: \<open>Point(True, False, 0)\<close> is
  built with coordinates 1, 0, 0, and a cone with \<open>sides = True\<close> is accepted and
  clamped to 3 sides.
\<close>

theorem bool_is_int:
  "is_number (PyBool b) \<and> isinstance_int (PyBool b)
   \<and> Point_post_init (PyBool True) (PyBool False) (PyInt 0)
       = Inr \<lparr>pt_x = PInt 1, pt_y = PInt 0, pt_z = PInt 0\<rparr>
   \<and> Cone_post_init fa (PyPoint pt) (PyInt 200) (PyBool True) (PyInt 200) (PyInt 60)
       = ([''Number of sides set to 3''],
          Inr \<lparr>point = pt, length_c = PInt 200, sides = 3, rings = 200,
               dip = Finite (fl_radians fa 60)\<rparr>)
   \<and> fl_radians exact_arith 60 = 60 * pi / 180"
proof -
  have n: "is_number (PyInt 200)" "is_number (PyInt 60)" by (simp_all add: is_number_def)
  show ?thesis
    by (simp add: Cone_post_init_number_cases [OF n] notices_spec_def is_number_def
          Point_post_init_def exact_arith_def)
qed

lemma valid_example_cone: "valid example_cone"
  by (simp add: valid_def example_cone_def)

lemma valid_one_ring_cone: "valid one_ring_cone"
  by (simp add: valid_def one_ring_cone_def)

lemma clamped_example_cone: "clamped example_cone"
  by (simp add: clamped_def example_cone_def)

lemma clamped_one_ring_cone: "clamped one_ring_cone"
  by (simp add: clamped_def one_ring_cone_def)

section \<open>The example inputs\<close>

lemma upto_0_1: "[0 .. 1] = [0, 1 :: int]"
  by (simp add: upto.simps)

lemma upto_0_2: "[0 .. 2] = [0, 1, 2 :: int]"
  by (simp add: upto.simps)

lemma upto_0_3: "[0 .. 3] = [0, 1, 2, 3 :: int]"
  by (simp add: upto.simps)

lemma exact_simps:
  "fl_mul exact_arith a b = Finite (a * b)"
  "fl_div exact_arith a b = Finite (a / b)"
  "fl_add exact_arith a b = Finite (a + b)"
  "fl_sub exact_arith a b = Finite (a - b)"
  "fl_pow2 exact_arith a = Some (a\<^sup>2)"
  "fl_sqrt exact_arith a = sqrt a"
  "fl_cos exact_arith a = cos a"
  "fl_sin exact_arith a = sin a"
  "fl_pi exact_arith = pi"
  by (simp_all add: exact_arith_def)

lemmas eval_defs = points_polar_def points_cartesian_def radius_def height_def angle_def cartesian_def
  math_cos_def math_sin_def math_sqrt_def to_float_def float_div_def exact_simps

lemma points_polar_example: "points_polar exact_arith example_cone = Inr example_polar"
  by (simp add: example_cone_def example_polar_def upto_0_2 upto_0_3 eval_defs cos_60)

lemma points_cartesian_example: "\<exists>pc. points_cartesian exact_arith example_cone = Inr pc"
  by (simp add: example_cone_def origin_def upto_0_2 upto_0_3 eval_defs cos_60)

lemma points_cartesian_one_ring: "\<exists>pc. points_cartesian exact_arith one_ring_cone = Inr pc"
  by (simp add: one_ring_cone_def origin_def upto_0_1 upto_0_2 eval_defs cos_60)

lemma indices_example: "indices exact_arith example_cone = Inr (indexed_spec example_cone)"
proof -
  from points_cartesian_example obtain pc where "points_cartesian exact_arith example_cone = Inr pc" ..
  then have "indices exact_arith example_cone = Inr (number_from 0 (map fst pc))"
    by (simp add: indices_cartesian)
  then show ?thesis using indices_clamped [OF clamped_example_cone] by simp
qed

lemma indices_one_ring: "indices exact_arith one_ring_cone = Inr (indexed_spec one_ring_cone)"
proof -
  from points_cartesian_one_ring obtain pc where "points_cartesian exact_arith one_ring_cone = Inr pc" ..
  then have "indices exact_arith one_ring_cone = Inr (number_from 0 (map fst pc))"
    by (simp add: indices_cartesian)
  then show ?thesis using indices_clamped [OF clamped_one_ring_cone] by simp
qed

lemma faces_one_ring: "faces exact_arith one_ring_cone = Inr [(1, 2, 3), (1, 3, 4), (1, 4, 2)]"
  unfolding faces_of_indices [OF clamped_one_ring_cone indices_one_ring]
  by (simp add: faces_spec_def one_ring_cone_def tip_fan_spec_def ring_idx_spec_def upt_rec)

lemma faces_example:
  "faces exact_arith example_cone = Inr
     [(1, 2, 3), (1, 3, 4), (1, 4, 5), (1, 5, 2),
      (2, 3, 6), (3, 4, 7), (4, 5, 8), (5, 2, 9),
      (3, 6, 7), (4, 7, 8), (5, 8, 9), (2, 9, 6),
      (10, 6, 7), (10, 7, 8), (10, 8, 9), (10, 9, 6)]"
  unfolding faces_of_indices [OF clamped_example_cone indices_example]
  by (simp add: faces_spec_def example_cone_def tip_fan_spec_def body_spec_def apex_fan_spec_def
        ring_idx_spec_def upt_rec)

section \<open>Polar points\<close>

lemma radius_spec_eq: "radius_spec fa c i = radius fa c i"
  by (simp add: radius_spec_def radius_def)

lemma angle_spec_eq: "angle_spec fa c j = angle fa c j"
  by (simp add: angle_spec_def angle_def)

lemma height_spec_eq:
  assumes "radius fa c i = Inr r" "height fa c i = Inr h"
  shows "height_spec fa c i = Inr h"
  using assms by (simp add: height_spec_def height_def radius_spec_eq)

lemma polar_sides_points:
  "polar_sides fa c i r h js pts = Inr pts' \<Longrightarrow>
     \<exists>as. map_result (angle fa c) js = Inr as
         \<and> pts' = pts @ map (\<lambda>(j, a). (i, r, a, h)) (filter (\<lambda>(j, a). \<not> (i = 0 \<and> j > 0)) (zip js as))"
proof (induction js arbitrary: pts)
  case Nil
  then show ?case by simp
next
  case (Cons j js)
  from Cons.prems obtain a where a: "angle fa c j = Inr a" and
    step: "(if i = 0 \<and> j > 0 then polar_sides fa c i r h js pts
            else polar_sides fa c i r h js (pts @ [(i, r, a, h)])) = Inr pts'"
    by (auto simp: and_then_eq_Inr)
  show ?case
  proof (cases "i = 0 \<and> j > 0")
    case True
    with step have "polar_sides fa c i r h js pts = Inr pts'" by simp
    from Cons.IH [OF this] obtain as where
      "map_result (angle fa c) js = Inr as"
      "pts' = pts @ map (\<lambda>(j, a). (i, r, a, h)) (filter (\<lambda>(j, a). \<not> (i = 0 \<and> j > 0)) (zip js as))"
      by blast
    then show ?thesis using a True by simp
  next
    case False
    with step have "polar_sides fa c i r h js (pts @ [(i, r, a, h)]) = Inr pts'" by simp
    from Cons.IH [OF this] obtain as where
      "map_result (angle fa c) js = Inr as"
      "pts' = (pts @ [(i, r, a, h)])
              @ map (\<lambda>(j, a). (i, r, a, h)) (filter (\<lambda>(j, a). \<not> (i = 0 \<and> j > 0)) (zip js as))"
      by blast
    then show ?thesis using a False by auto
  qed
qed

lemma map_zip_snd:
  "length js = length as \<Longrightarrow> map (\<lambda>(j, a). f a) (zip js as) = map f as"
  by (induction js as rule: list_induct2) simp_all

lemma polar_sides_ring:
  assumes s: "1 \<le> sides c" and run: "polar_sides fa c i r h [0 .. sides c - 1] pts = Inr pts'"
  shows "\<exists>as. map_result (angle_spec fa c) (if i = 0 then [0] else [0 .. sides c - 1]) = Inr as
           \<and> pts' = pts @ map (\<lambda>a. (i, r, a, h)) as"
proof -
  from polar_sides_points [OF run] obtain as where
    as: "map_result (angle fa c) [0 .. sides c - 1] = Inr as" and
    p: "pts' = pts @ map (\<lambda>(j, a). (i, r, a, h))
                       (filter (\<lambda>(j, a). \<not> (i = 0 \<and> j > 0)) (zip [0 .. sides c - 1] as))"
    by blast
  have len: "length as = length [0 .. sides c - 1]" by (rule map_result_length [OF as])
  have fn: "angle_spec fa c = angle fa c" by (rule ext) (rule angle_spec_eq)
  show ?thesis
  proof (cases "i = 0")
    case False
    have "filter (\<lambda>(j, a). \<not> (i = 0 \<and> j > 0)) (zip [0 .. sides c - 1] as) = zip [0 .. sides c - 1] as"
      using False by simp
    then have "pts' = pts @ map (\<lambda>a. (i, r, a, h)) as"
      using p len map_zip_snd [of "[0 .. sides c - 1]" as "\<lambda>a. (i, r, a, h)"] by simp
    then show ?thesis using False as fn by simp
  next
    case True
    have split: "[0 .. sides c - 1] = 0 # [1 .. sides c - 1]"
      using s by (subst upto_rec1) simp_all
    from as obtain a0 rest where a0: "angle fa c 0 = Inr a0"
      and rest: "map_result (angle fa c) [1 .. sides c - 1] = Inr rest" and eq: "as = a0 # rest"
      unfolding split by (auto simp: and_then_eq_Inr)
    have "filter (\<lambda>(j, a). \<not> 0 < j) (zip [1 .. sides c - 1] rest) = []"
      by (auto simp: filter_empty_conv dest: set_zip_leftD)
    then have "pts' = pts @ [(0, r, a0, h)]"
      using p True unfolding split eq by simp
    then show ?thesis using True a0 fn by simp
  qed
qed

lemma polar_rings_points:
  assumes s: "1 \<le> sides c"
  shows "polar_rings fa c is pts = Inr pts' \<Longrightarrow>
           \<exists>rs. map_result (ring_points_spec fa c) is = Inr rs \<and> pts' = pts @ concat rs"
proof (induction "is" arbitrary: pts)
  case Nil
  then show ?case by simp
next
  case (Cons i "is")
  from Cons.prems obtain r h mid where
    r: "radius fa c i = Inr r" and h: "height fa c i = Inr h" and
    mid: "polar_sides fa c i r h [0 .. sides c - 1] pts = Inr mid" and
    rest: "polar_rings fa c is mid = Inr pts'"
    by (auto simp: and_then_eq_Inr)
  from polar_sides_ring [OF s mid] obtain as where
    as: "map_result (angle_spec fa c) (if i = 0 then [0] else [0 .. sides c - 1]) = Inr as" and
    m: "mid = pts @ map (\<lambda>a. (i, r, a, h)) as"
    by blast
  have ring: "ring_points_spec fa c i = Inr (map (\<lambda>a. (i, r, a, h)) as)"
    using r height_spec_eq [OF r h] as by (simp add: ring_points_spec_def radius_spec_eq)
  from Cons.IH [OF rest] obtain rs where
    rs: "map_result (ring_points_spec fa c) is = Inr rs" and p: "pts' = mid @ concat rs"
    by blast
  show ?case using ring rs p m by simp
qed

lemma points_polar_refines:
  assumes "clamped c" "points_polar fa c = Inr pts"
  shows "points_polar_spec fa c = Inr pts"
proof -
  have s: "1 \<le> sides c" using assms(1) by (simp add: clamped_def)
  from assms(2) obtain body where b: "polar_rings fa c [0 .. rings c] [] = Inr body"
    and p: "pts = body @ [(- 1, PInt 0, PInt 0, PInt 0)]"
    by (auto simp: points_polar_def and_then_eq_Inr)
  from polar_rings_points [OF s b] show ?thesis
    using p by (auto simp: points_polar_spec_def)
qed

section \<open>Counting points\<close>

lemma filter_tag_ring:
  "filter (\<lambda>t. t = i) (ring_tags c k) = (if k = i then ring_tags c k else [])"
  by (simp add: ring_tags_def)

lemma filter_tag_rings:
  "filter (\<lambda>t. t = i) (concat (map (ring_tags c) [0 .. r]))
     = (if 0 \<le> i \<and> i \<le> r then ring_tags c i else [])"
proof -
  have eq: "filter (\<lambda>t. t = i) (concat (map (ring_tags c) [0 .. r]))
      = concat (map (\<lambda>k. if k = i then ring_tags c k else []) [0 .. r])"
    by (simp add: filter_concat comp_def filter_tag_ring)
  show ?thesis
  proof (cases "0 \<le> i \<and> i \<le> r")
    case True
    then show ?thesis unfolding eq using concat_map_single [of 0 i r "ring_tags c"] by simp
  next
    case False
    then have e: "concat (map (\<lambda>k. if k = i then ring_tags c k else []) [0 .. r]) = []"
      by auto
    show ?thesis unfolding eq e using False by auto
  qed
qed

lemma ring_count_tags:
  "ring_count pts i = int (length (filter (\<lambda>t. t = i) (map fst pts)))"
  by (simp add: ring_count_def filter_map comp_def)

lemma ring_count_all_tags:
  assumes "clamped c" "map fst pts = concat (map (ring_tags c) [0 .. rings c]) @ [- 1]"
  shows "ring_count pts i
         = (if i = 0 then 1 else if 1 \<le> i \<and> i \<le> rings c then sides c
            else if i = - 1 then 1 else 0)"
proof -
  have s: "1 \<le> sides c" and r: "1 \<le> rings c" using assms(1) by (simp_all add: clamped_def)
  have l0: "length (ring_tags c 0) = 1"
    using length_ring_tags [OF s, of 0] by simp
  have li: "i \<noteq> 0 \<Longrightarrow> int (length (ring_tags c i)) = sides c"
    using length_ring_tags [OF s, of i] by simp
  show ?thesis
  proof (cases "i = 0")
    case True
    then show ?thesis using r l0 by (simp add: ring_count_tags assms(2) filter_tag_rings)
  next
    case False
    then show ?thesis using r li by (simp add: ring_count_tags assms(2) filter_tag_rings)
  qed
qed

lemma length_of_tags:
  assumes "clamped c" "map fst pts = concat (map (ring_tags c) [0 .. rings c]) @ [- 1]"
  shows "int (length pts) = rings c * sides c + 2"
proof -
  have "length pts = length (map fst pts)" by simp
  also have "int \<dots> = rings c * sides c + 2"
    unfolding assms(2) by (rule length_all_tags [OF assms(1)])
  finally show ?thesis .
qed

section \<open>The mesh of a descriptor\<close>

lemma example_cartesian_eq: "points_cartesian exact_arith example_cone = Inr example_cartesian"
  by (simp add: example_cone_def example_cartesian_def origin_def upto_0_2 upto_0_3 eval_defs cos_60)

lemma example_indices_eq: "indices exact_arith example_cone = Inr example_indices"
  unfolding indices_example
  by (simp add: example_cone_def example_indices_def indexed_spec_def ring_idx_spec_def upto_0_2)

lemma example_faces_eq: "faces exact_arith example_cone = Inr example_faces"
  unfolding faces_example example_faces_def ..

text \<open>
  C5. For a valid cone, the list that \<open>points_polar\<close> returns holds, for each ring \<open>i\<close>
  from 0 to \<open>rings\<close>, the points with radius \<open>i * length * cos dip / rings\<close>, height
  \<open>- sqrt (length\<^sup>2 - radius\<^sup>2)\<close> and angle \<open>j * 2 * pi / sides\<close> for each side \<open>j\<close>
  (for ring 0 only \<open>j = 0\<close>), and then the single point \<open>(-1, 0, 0, 0)\<close> as last element.
\<close>

theorem points_polar_emits:
  assumes "clamped c" "points_polar fa c = Inr pts"
  shows "points_polar_spec fa c = Inr pts"
  using assms by (rule points_polar_refines)

theorem points_polar_emits_witness:
  "clamped example_cone
   \<and> points_polar exact_arith example_cone = Inr example_polar
   \<and> points_polar_spec exact_arith example_cone = Inr example_polar
   \<and> last example_polar = (- 1, PInt 0, PInt 0, PInt 0)"
  using clamped_example_cone points_polar_example
    points_polar_emits [OF clamped_example_cone points_polar_example]
  by (simp add: example_polar_def)

text \<open>
  C4. For a valid cone, the list that \<open>points_cartesian\<close> returns has
  \<open>rings * sides + 2\<close> points, and so have the lists of \<open>points_polar\<close> and \<open>indices\<close>:
  one point of ring 0, \<open>sides\<close> points of each ring from 1 to \<open>rings\<close>, and one apex
  point tagged \<open>-1\<close>.
\<close>

theorem points_count:
  assumes "clamped c"
  shows "(points_polar fa c = Inr pp \<longrightarrow>
            int (length pp) = rings c * sides c + 2
            \<and> ring_count pp 0 = 1
            \<and> (\<forall>i. 1 \<le> i \<and> i \<le> rings c \<longrightarrow> ring_count pp i = sides c)
            \<and> ring_count pp (- 1) = 1)
       \<and> (points_cartesian fa c = Inr pc \<longrightarrow>
            int (length pc) = rings c * sides c + 2
            \<and> ring_count pc 0 = 1
            \<and> (\<forall>i. 1 \<le> i \<and> i \<le> rings c \<longrightarrow> ring_count pc i = sides c)
            \<and> ring_count pc (- 1) = 1)
       \<and> (indices fa c = Inr ix \<longrightarrow> int (length ix) = rings c * sides c + 2)"
proof -
  have s: "1 \<le> sides c" and r: "1 \<le> rings c" using assms by (simp_all add: clamped_def)
  have counts: "\<And>pts. map fst pts = concat (map (ring_tags c) [0 .. rings c]) @ [- 1] \<Longrightarrow>
            int (length pts) = rings c * sides c + 2
            \<and> ring_count pts 0 = 1
            \<and> (\<forall>i. 1 \<le> i \<and> i \<le> rings c \<longrightarrow> ring_count pts i = sides c)
            \<and> ring_count pts (- 1) = 1"
    using length_of_tags [OF assms] ring_count_all_tags [OF assms] r by simp
  have polar: "points_polar fa c = Inr pp \<longrightarrow>
            int (length pp) = rings c * sides c + 2
            \<and> ring_count pp 0 = 1
            \<and> (\<forall>i. 1 \<le> i \<and> i \<le> rings c \<longrightarrow> ring_count pp i = sides c)
            \<and> ring_count pp (- 1) = 1"
    using counts [OF points_polar_tags [OF s]] by blast
  have cart: "points_cartesian fa c = Inr pc \<longrightarrow>
            int (length pc) = rings c * sides c + 2
            \<and> ring_count pc 0 = 1
            \<and> (\<forall>i. 1 \<le> i \<and> i \<le> rings c \<longrightarrow> ring_count pc i = sides c)
            \<and> ring_count pc (- 1) = 1"
    using counts [OF points_cartesian_tags [OF s]] by blast
  have ind: "indices fa c = Inr ix \<longrightarrow> int (length ix) = rings c * sides c + 2"
  proof
    assume "indices fa c = Inr ix"
    then obtain pts where p: "points_cartesian fa c = Inr pts" and ix: "ix = number_from 0 (map fst pts)"
      by (auto simp: indices_cartesian)
    have "int (length pts) = rings c * sides c + 2"
      using counts [OF points_cartesian_tags [OF s p]] by simp
    then show "int (length ix) = rings c * sides c + 2"
      unfolding ix by (simp add: length_number_from)
  qed
  from polar cart ind show ?thesis by blast
qed

theorem points_count_witness:
  "clamped example_cone
   \<and> points_polar exact_arith example_cone = Inr example_polar
   \<and> points_cartesian exact_arith example_cone = Inr example_cartesian
   \<and> indices exact_arith example_cone = Inr example_indices
   \<and> int (length example_polar) = 10 \<and> int (length example_cartesian) = 10
   \<and> int (length example_indices) = 10
   \<and> ring_count example_cartesian 0 = 1
   \<and> ring_count example_cartesian 1 = 4
   \<and> ring_count example_cartesian 2 = 4
   \<and> ring_count example_cartesian (- 1) = 1"
  using clamped_example_cone points_polar_example example_cartesian_eq example_indices_eq
    points_count [OF clamped_example_cone, of exact_arith example_polar example_cartesian example_indices]
  by (simp add: example_cone_def)

text \<open>
  C6. For a valid cone, every index of every face that \<open>faces\<close> returns lies between 1
  and the number of Cartesian points.
\<close>

theorem face_indices_in_range:
  assumes "clamped c" "faces fa c = Inr fs"
  shows "\<exists>pts. points_cartesian fa c = Inr pts \<and> list_all (face_in_range (int (length pts))) fs"
proof -
  have s: "1 \<le> sides c" using assms(1) by (simp add: clamped_def)
  from faces_clamped [OF assms] have ix: "indices fa c = Inr (indexed_spec c)"
    and fs: "fs = faces_spec c" by simp_all
  from ix obtain pts where p: "points_cartesian fa c = Inr pts"
    by (auto simp: indices_cartesian)
  have "int (length pts) = rings c * sides c + 2"
    by (rule length_of_tags [OF assms(1) points_cartesian_tags [OF s p]])
  then show ?thesis
    using p faces_spec_in_range [OF assms(1)] fs by auto
qed

theorem face_indices_in_range_witness:
  "clamped example_cone
   \<and> faces exact_arith example_cone = Inr example_faces
   \<and> points_cartesian exact_arith example_cone = Inr example_cartesian
   \<and> list_all (face_in_range 10) example_faces"
proof -
  from face_indices_in_range [OF clamped_example_cone example_faces_eq]
  have "list_all (face_in_range (int (length example_cartesian))) example_faces"
    by (simp add: example_cartesian_eq)
  then show ?thesis
    using clamped_example_cone example_faces_eq example_cartesian_eq
    by (simp add: example_cartesian_def)
qed

text \<open>
  C3. For a valid cone, ring 0 has a single index \<open>t\<close>, every ring from 1 to \<open>rings\<close>
  has \<open>sides\<close> indices, and the face list that \<open>faces\<close> returns is the tip fan
  \<open>(t, N1[k], N1_shift[k])\<close>, followed for each transition \<open>i\<close> from 1 to \<open>rings - 1\<close> by
  the triangles \<open>(A[k], A'[k], B[k])\<close> and \<open>(A'[k], B[k], B'[k])\<close>, followed by the apex
  fan when there are at least two rings.
\<close>

theorem faces_tip_and_body:
  assumes "clamped c" "faces fa c = Inr fs"
  shows "\<exists>pts_idx t. indices fa c = Inr pts_idx \<and> ring_indices pts_idx 0 = [t]
           \<and> (\<forall>i. 1 \<le> i \<and> i \<le> rings c \<longrightarrow> length (ring_indices pts_idx i) = nat (sides c))
           \<and> fs = tip_fan_spec (nat (sides c)) t (ring_indices pts_idx 1)
                  @ concat (map (\<lambda>i. body_spec (nat (sides c)) (ring_indices pts_idx i)
                                        (ring_indices pts_idx (i + 1)))
                             [1 .. rings c - 1])
                  @ (if 2 \<le> rings c
                     then apex_fan_spec (nat (sides c)) (idx (last pts_idx))
                            (ring_indices pts_idx (rings c))
                     else [])"
proof -
  have s0: "0 \<le> sides c" and r: "1 \<le> rings c" using assms(1) by (simp_all add: clamped_def)
  from faces_clamped [OF assms] have ix: "indices fa c = Inr (indexed_spec c)"
    and fs: "fs = faces_spec c" by simp_all
  have ri: "\<And>i. 0 \<le> i \<Longrightarrow> i \<le> rings c \<Longrightarrow> ring_indices (indexed_spec c) i = ring_idx_spec c i"
    by (rule ring_indices_indexed)
  have r0: "ring_indices (indexed_spec c) 0 = [1]"
    using ri [of 0] r by (simp add: ring_idx_spec_def)
  have r1: "ring_indices (indexed_spec c) 1 = ring_idx_spec c 1"
    using ri [of 1] r by simp
  have rr: "ring_indices (indexed_spec c) (rings c) = ring_idx_spec c (rings c)"
    using ri [of "rings c"] r by simp
  have len: "\<forall>i. 1 \<le> i \<and> i \<le> rings c \<longrightarrow> length (ring_indices (indexed_spec c) i) = nat (sides c)"
    using ri length_ring_idx_spec [OF s0] by simp
  have body: "map (\<lambda>i. body_spec (nat (sides c)) (ring_indices (indexed_spec c) i)
                          (ring_indices (indexed_spec c) (i + 1))) [1 .. rings c - 1]
            = map (\<lambda>i. body_spec (nat (sides c)) (ring_idx_spec c i) (ring_idx_spec c (i + 1)))
                [1 .. rings c - 1]"
    by (rule map_cong) (simp_all add: ri)
  have "fs = tip_fan_spec (nat (sides c)) 1 (ring_indices (indexed_spec c) 1)
                @ concat (map (\<lambda>i. body_spec (nat (sides c)) (ring_indices (indexed_spec c) i)
                                      (ring_indices (indexed_spec c) (i + 1)))
                           [1 .. rings c - 1])
                @ (if 2 \<le> rings c
                   then apex_fan_spec (nat (sides c)) (idx (last (indexed_spec c)))
                          (ring_indices (indexed_spec c) (rings c))
                   else [])"
    unfolding body r1 rr last_indexed_spec fs faces_spec_def ..
  with ix r0 len show ?thesis by blast
qed

theorem faces_tip_and_body_witness:
  "clamped example_cone
   \<and> faces exact_arith example_cone = Inr example_faces
   \<and> (\<exists>pts_idx t. indices exact_arith example_cone = Inr pts_idx \<and> ring_indices pts_idx 0 = [t]
         \<and> (\<forall>i. 1 \<le> i \<and> i \<le> 2 \<longrightarrow> length (ring_indices pts_idx i) = 4)
         \<and> example_faces =
             tip_fan_spec 4 t (ring_indices pts_idx 1)
             @ body_spec 4 (ring_indices pts_idx 1) (ring_indices pts_idx 2)
             @ apex_fan_spec 4 (idx (last pts_idx)) (ring_indices pts_idx 2))"
  using clamped_example_cone example_faces_eq
    faces_tip_and_body [OF clamped_example_cone example_faces_eq]
  by (simp add: example_cone_def)

text \<open>The number of faces, for every arithmetic.\<close>

lemma faces_length:
  assumes "clamped c" "faces fa c = Inr fs"
  shows "int (length fs) = (if rings c = 1 then sides c else 2 * sides c * rings c)"
  using faces_clamped [OF assms] length_faces_spec [OF assms(1)] by simp

text \<open>
  C1. The claimed number of faces is \<open>2 * sides * rings\<close>. With one ring and three sides
  the face list has 3 faces, where the formula gives 6: the apex fan is missing.
\<close>

theorem faces_length_one_ring:
  "Cone_post_init exact_arith (PyPoint origin) (PyInt 100) (PyInt 3) (PyInt 1) (PyInt 60)
     = ([], Inr one_ring_cone)
   \<and> valid one_ring_cone
   \<and> map_sum id length (faces exact_arith one_ring_cone) = Inr 3
   \<and> 2 * sides one_ring_cone * rings one_ring_cone = 6"
  using valid_one_ring_cone faces_one_ring one_ring_cone_constructed
  by (simp add: one_ring_cone_def)

text \<open>
  C2. The claimed apex fan \<open>(apex, B[k], B'[k])\<close> is emitted at the last ring transition.
  With one ring and three sides the apex is vertex 5 and ring 1 is \<open>[2, 3, 4]\<close>, so the
  fan would be \<open>(5, 2, 3), (5, 3, 4), (5, 4, 2)\<close>; the face list holds the tip fan only.
\<close>

theorem faces_one_ring_no_apex_fan:
  "Cone_post_init exact_arith (PyPoint origin) (PyInt 100) (PyInt 3) (PyInt 1) (PyInt 60)
     = ([], Inr one_ring_cone)
   \<and> valid one_ring_cone
   \<and> indices exact_arith one_ring_cone
       = Inr [\<lparr>ring = 0, idx = 1\<rparr>, \<lparr>ring = 1, idx = 2\<rparr>, \<lparr>ring = 1, idx = 3\<rparr>,
              \<lparr>ring = 1, idx = 4\<rparr>, \<lparr>ring = - 1, idx = 5\<rparr>]
   \<and> apex_fan_spec 3 5 [2, 3, 4] = [(5, 2, 3), (5, 3, 4), (5, 4, 2)]
   \<and> faces exact_arith one_ring_cone = Inr [(1, 2, 3), (1, 3, 4), (1, 4, 2)]"
  using valid_one_ring_cone faces_one_ring indices_one_ring one_ring_cone_constructed
  by (simp add: indexed_spec_def one_ring_cone_def apex_fan_spec_def ring_idx_spec_def upt_rec upto_0_1)

section \<open>The square root of the height\<close>

text \<open>
  The radicand is computed in the arithmetic of the program and passed to \<open>math.sqrt\<close>
  unguarded: a negative result of the subtraction raises. In exact arithmetic the radicand
  of a valid cone of finite length is at least \<open>length\<^sup>2 * sin\<^sup>2 dip\<close>, which is positive,
  and \<open>points_polar\<close> returns.
\<close>

lemma height_domain_error:
  assumes "py_pow2 fa (length_c c) = Inr l2" "radius fa c i = Inr r" "py_pow2 fa r = Inr r2"
    "py_sub fa l2 r2 = Inr (PFloat (Finite d))" "d < 0"
  shows "height fa c i = Inl (ValueError ''math domain error'')"
  using assms by (simp add: height_def math_sqrt_def to_float_def)

lemma radicand_bound:
  fixes L d :: real
  assumes "0 < L" "0 < d" "d < pi / 2" "0 \<le> i" "i \<le> r" "1 \<le> r"
  shows "L\<^sup>2 * (sin d)\<^sup>2 \<le> L\<^sup>2 - (of_int i * L * cos d / of_int r)\<^sup>2"
proof -
  define q :: real where "q = of_int i / of_int r"
  have q0: "0 \<le> q" using assms(4,6) by (simp add: q_def)
  have q1: "q \<le> 1" using assms(5,6) by (simp add: q_def)
  have qq: "q\<^sup>2 \<le> 1" using q0 q1 by (simp add: power_le_one)
  have eq: "of_int i * L * cos d / of_int r = q * (L * cos d)"
    by (simp add: q_def)
  have "(q * (L * cos d))\<^sup>2 = q\<^sup>2 * (L * cos d)\<^sup>2"
    by (simp add: power_mult_distrib)
  also have "\<dots> \<le> 1 * (L * cos d)\<^sup>2"
    using qq by (intro mult_right_mono) simp_all
  finally have le: "(q * (L * cos d))\<^sup>2 \<le> L\<^sup>2 * (cos d)\<^sup>2"
    by (simp add: power_mult_distrib)
  have "L\<^sup>2 * (sin d)\<^sup>2 = L\<^sup>2 - L\<^sup>2 * (cos d)\<^sup>2"
    by (simp add: sin_squared_eq algebra_simps)
  with le show ?thesis unfolding eq by linarith
qed

lemma radicand_pos:
  fixes L d :: real
  assumes "0 < L" "0 < d" "d < pi / 2"
  shows "0 < L\<^sup>2 * (sin d)\<^sup>2"
proof -
  have "0 < sin d" using assms(2,3) by (intro sin_gt_zero) simp_all
  then show ?thesis using assms(1) by simp
qed

lemma to_float_exact: "to_float exact_arith (PInt n) = Inr (Finite (of_int n))"
  by (simp add: to_float_def exact_arith_def)

lemma to_float_PFloat: "to_float fa (PFloat f) = Inr f"
  by (simp add: to_float_def)

lemma height_exact_float:
  assumes "length_c c = PFloat (Finite L)" "dip c = Finite d"
    "0 < L" "0 < d" "d < pi / 2" "0 \<le> i" "i \<le> rings c" "1 \<le> rings c"
  shows "radius exact_arith c i = Inr (PFloat (Finite (of_int i * L * cos d / of_int (rings c))))
       \<and> height exact_arith c i
         = Inr (PFloat (Finite (- sqrt (L\<^sup>2 - (of_int i * L * cos d / of_int (rings c))\<^sup>2))))"
proof -
  have nz: "Finite (of_int (rings c)) \<noteq> Finite 0" using assms(8) by simp
  have nonneg: "\<not> L\<^sup>2 - (of_int i * L * cos d / of_int (rings c))\<^sup>2 < 0"
    using radicand_bound [OF assms(3-8)] radicand_pos [OF assms(3-5)] by linarith
  have r: "radius exact_arith c i = Inr (PFloat (Finite (of_int i * L * cos d / of_int (rings c))))"
    using assms(1,2) nz
    by (simp add: radius_def math_cos_def to_float_exact to_float_PFloat float_div_def exact_simps)
  show ?thesis
    using assms(1) nonneg
    by (simp add: r height_def math_sqrt_def to_float_PFloat exact_simps)
qed

lemma height_exact_int:
  assumes "length_c c = PInt n" "dip c = Finite d"
    "0 < n" "0 < d" "d < pi / 2" "0 \<le> i" "i \<le> rings c" "1 \<le> rings c"
  shows "radius exact_arith c i
         = Inr (PFloat (Finite (of_int i * of_int n * cos d / of_int (rings c))))
       \<and> height exact_arith c i
         = Inr (PFloat (Finite (- sqrt ((of_int n)\<^sup>2
                                        - (of_int i * of_int n * cos d / of_int (rings c))\<^sup>2))))"
proof -
  have nz: "Finite (of_int (rings c)) \<noteq> Finite 0" using assms(8) by simp
  have L: "0 < (of_int n :: real)" using assms(3) by simp
  have nonneg: "\<not> (of_int n :: real)\<^sup>2 - (of_int i * of_int n * cos d / of_int (rings c))\<^sup>2 < 0"
    using radicand_bound [OF L assms(4-8)] radicand_pos [OF L assms(4,5)] by linarith
  have r: "radius exact_arith c i
           = Inr (PFloat (Finite (of_int i * of_int n * cos d / of_int (rings c))))"
    using assms(1,2) nz
    by (simp add: radius_def math_cos_def to_float_exact to_float_PFloat float_div_def exact_simps)
  show ?thesis
    using assms(1) nonneg
    by (simp add: r height_def math_sqrt_def to_float_exact to_float_PFloat exact_simps power2_eq_square)
qed

lemma ring_exact:
  assumes v: "valid c" and fin: "length_c c \<noteq> PFloat PosInf" and i: "0 \<le> i" "i \<le> rings c"
  shows "\<exists>r h. radius exact_arith c i = Inr r \<and> height exact_arith c i = Inr h"
proof -
  from v have r: "1 \<le> rings c" and len: "num_gt (length_c c) 0" and dr: "dip_in_range (dip c)"
    by (simp_all add: valid_def)
  from dr obtain d where d: "dip c = Finite d" "0 < d" "d < pi / 2"
    by (cases "dip c") simp_all
  show ?thesis
  proof (cases "length_c c")
    case (PInt n)
    with len have "0 < n" by simp
    from height_exact_int [OF PInt d(1) this d(2,3) i r] show ?thesis by blast
  next
    case (PFloat f)
    with len fin obtain L where L: "f = Finite L" "0 < L"
      by (cases f) simp_all
    from height_exact_float [OF PFloat [unfolded L(1)] d(1) L(2) d(2,3) i r] show ?thesis by blast
  qed
qed

lemma angle_exact:
  "sides c \<noteq> 0 \<Longrightarrow>
     angle exact_arith c j = Inr (PFloat (Finite (of_int (j * 2) * pi / of_int (sides c))))"
  by (simp add: angle_def to_float_exact to_float_PFloat float_div_def exact_simps)

lemma polar_sides_exact:
  "sides c \<noteq> 0 \<Longrightarrow> \<exists>pts'. polar_sides exact_arith c i r h js pts = Inr pts'"
  by (induction js arbitrary: pts) (auto simp add: angle_exact)

lemma polar_rings_exact:
  assumes v: "valid c" and fin: "length_c c \<noteq> PFloat PosInf"
  shows "\<forall>i \<in> set is. 0 \<le> i \<and> i \<le> rings c \<Longrightarrow>
           \<exists>pts'. polar_rings exact_arith c is pts = Inr pts'"
proof (induction "is" arbitrary: pts)
  case Nil
  then show ?case by simp
next
  case (Cons i "is")
  have s: "sides c \<noteq> 0" using v by (simp add: valid_def)
  from Cons.prems have i: "0 \<le> i" "i \<le> rings c" by simp_all
  from ring_exact [OF v fin i] obtain r h where
    rh: "radius exact_arith c i = Inr r" "height exact_arith c i = Inr h" by blast
  from polar_sides_exact [OF s] obtain mid where
    mid: "polar_sides exact_arith c i r h [0 .. sides c - 1] pts = Inr mid" by blast
  from Cons.IH [of mid] Cons.prems obtain pts' where
    "polar_rings exact_arith c is mid = Inr pts'" by auto
  then show ?case using rh mid by simp
qed

lemma points_polar_exact:
  assumes "valid c" "length_c c \<noteq> PFloat PosInf"
  shows "\<exists>pts. points_polar exact_arith c = Inr pts"
proof -
  from polar_rings_exact [OF assms, of "[0 .. rings c]" "[]"] obtain body where
    "polar_rings exact_arith c [0 .. rings c] [] = Inr body" by auto
  then show ?thesis by (simp add: points_polar_def)
qed

end
